theory Spec2Isabelle
  imports Main "HOL-Library.Word" "HOL-Library.Monad_Syntax" "HOL-Library.AList" "HOL-Library.Multiset"
begin

unbundle bit_operations_syntax

section \<open>Handles, sizes and Go maps\<close>

text \<open>
  Vulkan handles and \<open>VkDeviceSize\<close> are unsigned 64-bit integers; flag words are
  32-bit.  Arithmetic on them wraps, as Go's \<open>uint64\<close> and \<open>uint32\<close> do.
\<close>

type_synonym u64 = "64 word"
type_synonym u32 = "32 word"
type_synonym VkDeviceSize = "64 word"

text \<open>
  Modelled from the spec: the generated map types (\<open>U64:VkSparseMemoryBind\<close>, the
  per-category object tables) are not part of the sources at hand.  A map is kept as an
  association list read with \<open>map_of\<close>; \<open>Keys\<close> returns the keys in increasing
  order, each once ("scan bindings ordered by increasing resource offset").
\<close>

definition Keys :: "('k::linorder \<times> 'v) list \<Rightarrow> 'k list" where
  "Keys m = sort (remdups (map fst m))"

record VkSparseMemoryBind =
  ResourceOffset :: VkDeviceSize
  Size :: VkDeviceSize
  Memory :: u64
  MemoryOffset :: VkDeviceSize
  Flags :: u32

text \<open>\<open>Get\<close> on a map of structs returns the zero value for a missing key.\<close>

definition GetBind :: "(u64 \<times> VkSparseMemoryBind) list \<Rightarrow> u64 \<Rightarrow> VkSparseMemoryBind" where
  "GetBind bindings k =
     (case map_of bindings k of
        Some b \<Rightarrow> b
      | None \<Rightarrow> \<lparr>ResourceOffset = 0, Size = 0, Memory = 0, MemoryOffset = 0, Flags = 0\<rparr>)"

section \<open>Sparse binding coverage: \<open>IsFullyBound\<close>\<close>

text \<open>
  The first loop of \<open>IsFullyBound\<close>: the index of the first resource offset strictly
  greater than the limit, or \<open>-1\<close> when there is none.
\<close>

fun firstBeyond :: "u64 list \<Rightarrow> u64 \<Rightarrow> nat \<Rightarrow> int" where
  "firstBeyond [] lim i = - 1"
| "firstBeyond (r # rs) lim i = (if r > lim then int i else firstBeyond rs lim (Suc i))"

text \<open>
  The backward walk \<open>for i > 0 && end > offset\<close>.  \<open>None\<close> is the \<open>return false\<close>
  inside the loop; \<open>Some (i, end)\<close> is the state in which the loop is left.
\<close>

fun walkBack :: "u64 list \<Rightarrow> (u64 \<times> VkSparseMemoryBind) list \<Rightarrow> VkDeviceSize
                 \<Rightarrow> nat \<Rightarrow> VkDeviceSize \<Rightarrow> (nat \<times> VkDeviceSize) option" where
  "walkBack resourceOffsets bindings offset 0 end' = Some (0, end')"
| "walkBack resourceOffsets bindings offset (Suc j) end' =
     (if end' > offset then
        (let resOffset = resourceOffsets ! Suc j in
         if resOffset + Size (GetBind bindings resOffset) \<ge> end'
         then walkBack resourceOffsets bindings offset j resOffset
         else None)
      else Some (Suc j, end'))"

definition IsFullyBound :: "VkDeviceSize \<Rightarrow> VkDeviceSize \<Rightarrow> (u64 \<times> VkSparseMemoryBind) list \<Rightarrow> bool" where
  "IsFullyBound offset size' bindings =
     (let resourceOffsets = Keys bindings;
          oneAfterReqRange = firstBeyond resourceOffsets (offset + size') 0
      in if oneAfterReqRange = - 1 \<or> oneAfterReqRange = 0 then False
         else (case walkBack resourceOffsets bindings offset
                      (nat (oneAfterReqRange - 1)) (offset + size') of
                 None \<Rightarrow> False
               | Some (i, end') \<Rightarrow>
                   if end' \<le> offset then True
                   else if i = 0 then
                     (let resOffset = resourceOffsets ! 0
                      in resOffset \<le> offset \<and>
                         resOffset + Size (GetBind bindings resOffset) \<ge> end')
                   else False))"

text \<open>A binding of the given size at the given resource offset.\<close>

definition bindAt :: "u64 \<Rightarrow> u64 \<Rightarrow> u64 \<times> VkSparseMemoryBind" where
  "bindAt off sz = (off, \<lparr>ResourceOffset = off, Size = sz, Memory = 1, MemoryOffset = 0, Flags = 0\<rparr>)"

text \<open>
  Byte \<open>b\<close> of the resource lies in the span \<open>[k, k + Size)\<close> of some binding.  Byte
  positions and span ends are natural numbers, so a span is not cut at \<open>2^64\<close>.
\<close>

definition coveredByte :: "(u64 \<times> VkSparseMemoryBind) list \<Rightarrow> nat \<Rightarrow> bool" where
  "coveredByte bindings b =
     (\<exists>k \<in> set (Keys bindings). unat k \<le> b \<and> b < unat k + unat (Size (GetBind bindings k)))"

section \<open>The captured object graph\<close>

text \<open>
  The snapshot \<open>State\<close> holds one handle-indexed table per object category.  Only the
  attributes read by the functions modelled here are spelled out; the objects of the
  other categories are values of the type parameter \<open>'o\<close>.  \<open>ComputePipelineObject\<close>
  and \<open>GraphicsPipelineObject\<close> share the two fields the resolver reads.
\<close>

type_synonym VkPipeline = u64
type_synonym VkDevice = u64
type_synonym VkPhysicalDevice = u64
type_synonym VkDeviceMemory = u64
type_synonym VkBuffer = u64
type_synonym VkImage = u64

record VkObject =
  VulkanHandle :: u64

record PipelineObject = VkObject +
  BasePipeline :: VkPipeline

record VkPhysicalDeviceMemoryProperties =
  MemoryTypeCount :: u32
  MemoryTypes :: "u32 list"  \<comment> \<open>the \<open>PropertyFlags\<close> of each memory type\<close>

record PhysicalDeviceObject = VkObject +
  MemoryProperties :: VkPhysicalDeviceMemoryProperties

record DeviceObject = VkObject +
  PhysicalDevice :: VkPhysicalDevice

text \<open>The objects that belong to a device share the field \<open>Device\<close>.\<close>

record DeviceChild = VkObject +
  Device :: VkDevice

record QueueObject = DeviceChild +
  Family :: u32
  Index :: u32

record DeviceMemoryObject = DeviceChild +
  AllocationSize :: VkDeviceSize
  MemoryTypeIndex :: u32
  MappedLocation :: u64
  MappedOffset :: VkDeviceSize
  MappedSize :: VkDeviceSize
  DedicatedAllocationNV :: "(VkImage \<times> VkBuffer) option"

record 'o ImageObject = VkObject +
  IsSwapchainImage :: bool
  ImageAttributes :: 'o

datatype VkCommandBufferLevel =
  VK_COMMAND_BUFFER_LEVEL_PRIMARY | VK_COMMAND_BUFFER_LEVEL_SECONDARY

record 'o State =
  Instances :: "(u64 \<times> 'o) list"
  PhysicalDevices :: "(u64 \<times> PhysicalDeviceObject) list"
  Surfaces :: "(u64 \<times> 'o) list"
  Devices :: "(u64 \<times> DeviceObject) list"
  Queues :: "(u64 \<times> QueueObject) list"
  Swapchains :: "(u64 \<times> 'o) list"
  DeviceMemories :: "(u64 \<times> DeviceMemoryObject) list"
  Buffers :: "(u64 \<times> 'o) list"
  Images :: "(u64 \<times> 'o ImageObject) list"
  Samplers :: "(u64 \<times> 'o) list"
  Fences :: "(u64 \<times> 'o) list"
  Semaphores :: "(u64 \<times> 'o) list"
  Events :: "(u64 \<times> 'o) list"
  CommandPools :: "(u64 \<times> 'o) list"
  PipelineCaches :: "(u64 \<times> 'o) list"
  DescriptorSetLayouts :: "(u64 \<times> 'o) list"
  PipelineLayouts :: "(u64 \<times> 'o) list"
  RenderPasses :: "(u64 \<times> 'o) list"
  ShaderModules :: "(u64 \<times> 'o) list"
  ComputePipelines :: "(u64 \<times> PipelineObject) list"
  GraphicsPipelines :: "(u64 \<times> PipelineObject) list"
  ImageViews :: "(u64 \<times> 'o) list"
  BufferViews :: "(u64 \<times> 'o) list"
  DescriptorPools :: "(u64 \<times> 'o) list"
  Framebuffers :: "(u64 \<times> 'o) list"
  DescriptorSets :: "(u64 \<times> 'o) list"
  QueryPools :: "(u64 \<times> 'o) list"
  CommandBuffers :: "(u64 \<times> 'o) list"
  TransferBufferMemoryRequirements :: "(u64 \<times> u32) list"  \<comment> \<open>device to \<open>MemoryTypeBits\<close>\<close>

text \<open>
  \<open>for _, k := range m.Keys() { v := m.Get(k); ... }\<close> visits the values of a table in
  increasing key order.
\<close>

definition Values :: "('k::linorder \<times> 'v) list \<Rightarrow> 'v list" where
  "Values m = List.map_filter (map_of m) (Keys m)"

text \<open>The entries of a table, each key once with the value that \<open>Get\<close> returns for it.\<close>

definition Entries :: "('k::linorder \<times> 'v) list \<Rightarrow> ('k \<times> 'v) list" where
  "Entries m = List.map_filter (\<lambda>k. map_option (Pair k) (map_of m k)) (Keys m)"

section \<open>Pipeline dependency resolver: \<open>GetPipelinesInOrder\<close>\<close>

text \<open>
  The resolver works on two built-in Go maps, \<open>unhandledPipelines\<close> (handle to base
  handle) and \<open>handledPipelines\<close> (a set of handles), the output slice \<open>pipelines\<close> and
  the counter \<open>numHandled\<close>, which is declared before the outer loop (a Go \<open>int\<close>
  that only counts handled pipelines up, a natural number here).
\<close>

record resolver =
  pipelines :: "VkPipeline list"
  unhandledPipelines :: "(VkPipeline \<times> VkPipeline) list"
  handledPipelines :: "VkPipeline set"
  numHandled :: nat

text \<open>
  The order in which \<open>range\<close> visits a built-in map is not specified by Go and may
  change from one loop to the next.  An iteration order is given from outside as a
  priority per loop number and key: loop \<open>n\<close> visits the entries by increasing
  priority.  Every permutation of the entries arises from some priority (lemma
  \<open>rangeMap_any_order\<close> below).
\<close>

type_synonym rangeOrder = "nat \<Rightarrow> u64 \<Rightarrow> nat"

definition rangeMap :: "rangeOrder \<Rightarrow> nat \<Rightarrow> (u64 \<times> 'v) list \<Rightarrow> (u64 \<times> 'v) list" where
  "rangeMap ord n m = sort_key (\<lambda>e. ord n (fst e)) m"

text \<open>
  The map filled before the loop: \<open>unhandledPipelines[pp.VulkanHandle] = pp.BasePipeline\<close>
  for each pipeline of the requested kind.
\<close>

definition pipelineTable :: "'o State \<Rightarrow> bool \<Rightarrow> (VkPipeline \<times> VkPipeline) list" where
  "pipelineTable s compute =
     fold (\<lambda>pp m. AList.update (VulkanHandle pp) (BasePipeline pp) m)
          (if compute then Values (ComputePipelines s) else Values (GraphicsPipelines s)) []"

text \<open>One run of the inner loop \<open>for k, v := range unhandledPipelines\<close> over the entries in
  the order given.\<close>

fun resolvePass :: "(VkPipeline \<times> VkPipeline) list \<Rightarrow> resolver \<Rightarrow> resolver" where
  "resolvePass [] st = st"
| "resolvePass ((k, v) # es) st =
     (let handled = (if v = 0 then True else if v \<in> handledPipelines st then True else False)
      in resolvePass es
           (if handled
            then st\<lparr>pipelines := pipelines st @ [k],
                    handledPipelines := insert k (handledPipelines st),
                    unhandledPipelines := AList.delete k (unhandledPipelines st),
                    numHandled := Suc (numHandled st)\<rparr>
            else st))"

text \<open>
  The outer loop \<open>for len(unhandledPipelines) != 0\<close>.  \<open>numHandled\<close> is carried from one
  pass to the next without being reset.  A loop that never ends has the value \<open>None\<close>.
\<close>

partial_function (option) resolveLoop :: "rangeOrder \<Rightarrow> nat \<Rightarrow> resolver \<Rightarrow> VkPipeline list option" where
  "resolveLoop ord n st =
     (if unhandledPipelines st = [] then Some (pipelines st)
      else if numHandled (resolvePass (rangeMap ord n (unhandledPipelines st)) st) = 0
      then Some (pipelines (resolvePass (rangeMap ord n (unhandledPipelines st)) st) @
                 map fst (rangeMap ord (Suc n)
                   (unhandledPipelines (resolvePass (rangeMap ord n (unhandledPipelines st)) st))))
      else resolveLoop ord (Suc n) (resolvePass (rangeMap ord n (unhandledPipelines st)) st))"

declare resolveLoop.simps [code]

definition GetPipelinesInOrder :: "rangeOrder \<Rightarrow> 'o State \<Rightarrow> bool \<Rightarrow> VkPipeline list option" where
  "GetPipelinesInOrder ord s compute =
     resolveLoop ord 0
       \<lparr>pipelines = [], unhandledPipelines = pipelineTable s compute,
        handledPipelines = {}, numHandled = 0\<rparr>"

text \<open>A snapshot that holds nothing but the given compute and graphics pipelines.\<close>

definition pipelineObj :: "VkPipeline \<Rightarrow> VkPipeline \<Rightarrow> VkPipeline \<times> PipelineObject" where
  "pipelineObj h b = (h, \<lparr>VulkanHandle = h, BasePipeline = b\<rparr>)"

definition emptyState :: "'o State" where
  "emptyState =
     \<lparr>Instances = [], PhysicalDevices = [], Surfaces = [], Devices = [], Queues = [],
      Swapchains = [], DeviceMemories = [], Buffers = [], Images = [], Samplers = [],
      Fences = [], Semaphores = [], Events = [], CommandPools = [], PipelineCaches = [],
      DescriptorSetLayouts = [], PipelineLayouts = [], RenderPasses = [],
      ShaderModules = [], ComputePipelines = [], GraphicsPipelines = [], ImageViews = [],
      BufferViews = [], DescriptorPools = [], Framebuffers = [], DescriptorSets = [],
      QueryPools = [], CommandBuffers = [], TransferBufferMemoryRequirements = []\<rparr>"

definition pipelineState :: "(VkPipeline \<times> PipelineObject) list \<Rightarrow> (VkPipeline \<times> PipelineObject) list
                              \<Rightarrow> unit State" where
  "pipelineState cps gps = emptyState\<lparr>ComputePipelines := cps, GraphicsPipelines := gps\<rparr>"

text \<open>Handle \<open>b\<close> stands before handle \<open>k\<close> in the emitted order.\<close>

definition precedes :: "VkPipeline \<Rightarrow> VkPipeline \<Rightarrow> VkPipeline list \<Rightarrow> bool" where
  "precedes b k ps = (\<exists>i j. i < j \<and> j < length ps \<and> ps ! i = b \<and> ps ! j = k)"

text \<open>
  A set \<open>B\<close> of keys is blocked in a map when each of its entries has a non-zero base
  that is not yet handled and that is either outside the map or itself in \<open>B\<close>: a base
  cycle, or a chain hanging from a base that is not in the table.
\<close>

definition blocked :: "VkPipeline set \<Rightarrow> (VkPipeline \<times> VkPipeline) list \<Rightarrow> VkPipeline set \<Rightarrow> bool" where
  "blocked B es H = (\<forall>(k, v) \<in> set es. k \<in> B \<longrightarrow> v \<noteq> 0 \<and> v \<notin> H \<and> (v \<in> fst ` set es \<longrightarrow> v \<in> B))"

text \<open>
  The state in which the loop cannot make progress and cannot leave either: something was
  handled in an earlier pass, and a blocked entry is left.
\<close>

definition jammed :: "VkPipeline set \<Rightarrow> resolver \<Rightarrow> bool" where
  "jammed B st = (numHandled st \<noteq> 0 \<and> (\<exists>e \<in> set (unhandledPipelines st). fst e \<in> B) \<and>
                  blocked B (unhandledPipelines st) (handledPipelines st))"

text \<open>An emitted order honours the table when every emitted pipeline with a non-zero base
  comes after that base.\<close>

definition honors :: "(VkPipeline \<times> VkPipeline) list \<Rightarrow> VkPipeline list \<Rightarrow> bool" where
  "honors tbl ps = (\<forall>(k, b) \<in> set tbl. b \<noteq> 0 \<and> k \<in> set ps \<longrightarrow> precedes b k ps)"

text \<open>What holds of the resolver state between two steps, for the table it started from.\<close>

definition resolverInv :: "(VkPipeline \<times> VkPipeline) list \<Rightarrow> resolver \<Rightarrow> bool" where
  "resolverInv tbl st =
     (distinct (map fst (unhandledPipelines st)) \<and>
      set (unhandledPipelines st) \<subseteq> set tbl \<and>
      fst ` set tbl = set (pipelines st) \<union> fst ` set (unhandledPipelines st) \<and>
      handledPipelines st = set (pipelines st) \<and>
      honors tbl (pipelines st) \<and>
      distinct (pipelines st) \<and>
      set (pipelines st) \<inter> fst ` set (unhandledPipelines st) = {})"

text \<open>The base references of a table, and the table holding every base it refers to.\<close>

definition baseRel :: "(VkPipeline \<times> VkPipeline) list \<Rightarrow> (VkPipeline \<times> VkPipeline) set" where
  "baseRel tbl = {(k, b). (k, b) \<in> set tbl \<and> b \<noteq> 0}"

definition basesContained :: "(VkPipeline \<times> VkPipeline) list \<Rightarrow> bool" where
  "basesContained tbl = (\<forall>(k, b) \<in> set tbl. b \<noteq> 0 \<longrightarrow> b \<in> fst ` set tbl)"

section \<open>Commands, allocations and the state builder\<close>

text \<open>
  The values that the modelled routines hand to the allocator.  The Vulkan structures are
  written with positional arguments, in the order of the composite literals of the source.
\<close>

datatype VkStructureType =
    VK_STRUCTURE_TYPE_BUFFER_CREATE_INFO
  | VK_STRUCTURE_TYPE_MEMORY_ALLOCATE_INFO
  | VK_STRUCTURE_TYPE_MAPPED_MEMORY_RANGE
  | VK_STRUCTURE_TYPE_DEDICATED_ALLOCATION_MEMORY_ALLOCATE_INFO_NV

datatype VkSharingMode = VK_SHARING_MODE_EXCLUSIVE | VK_SHARING_MODE_CONCURRENT

datatype VkResult = VK_SUCCESS

datatype Value =
    Handle u64
  | Bytes "8 word list"
  | Pointer u64
  | VkBufferCreateInfo VkStructureType u64 u32 VkDeviceSize u32 VkSharingMode u32 u64
  | VkMemoryAllocateInfo VkStructureType u64 VkDeviceSize u32
  | VkDedicatedAllocationMemoryAllocateInfoNV VkStructureType u64 VkImage VkBuffer
  | VkMappedMemoryRange VkStructureType u64 VkDeviceMemory VkDeviceSize VkDeviceSize
  | Encoded string "u64 list"  \<comment> \<open>any other encoded value\<close>

text \<open>
  Modelled from the spec: \<open>api.AllocResult\<close> and the allocator of the new state are not
  part of the sources at hand.  An \<open>AllocResult\<close> is "an allocation in the new address
  space"; here it carries the serial number of the allocation, its byte range and the
  value stored.  \<open>Ptr\<close> is the base address, \<open>Data\<close> the range with its content.
\<close>

record AllocResult =
  allocSerial :: nat
  rangeBase :: u64
  rangeSize :: u64
  stored :: Value

type_synonym Observation = "u64 \<times> u64 \<times> Value"

definition Ptr :: "AllocResult \<Rightarrow> u64" where
  "Ptr a = rangeBase a"

definition Data :: "AllocResult \<Rightarrow> Observation" where
  "Data a = (rangeBase a, rangeSize a, stored a)"

text \<open>The API calls built by the modelled routines, with the arguments of the command
  builder in order; \<open>VkCall\<close> stands for any other call.\<close>

datatype Call =
    VkCreateBuffer VkDevice u64 u64 u64 VkResult
  | VkAllocateMemory VkDevice u64 u64 u64 VkResult
  | VkBindBufferMemory VkDevice VkBuffer VkDeviceMemory VkDeviceSize VkResult
  | VkMapMemory VkDevice VkDeviceMemory VkDeviceSize VkDeviceSize u32 u64 VkResult
  | VkFlushMappedMemoryRanges VkDevice u32 u64 VkResult
  | VkUnmapMemory VkDevice VkDeviceMemory
  | VkDestroyBuffer VkDevice VkBuffer u64
  | VkFreeMemory VkDevice VkDeviceMemory u64
  | VkGetDeviceQueue VkDevice u32 u32 u64
  | VkCall string "u64 list"

record Cmd =
  call :: Call
  readObservations :: "Observation list"
  writeObservations :: "Observation list"

definition newCmd :: "Call \<Rightarrow> Cmd" where
  "newCmd c = \<lparr>call = c, readObservations = [], writeObservations = []\<rparr>"

definition AddRead :: "Observation \<Rightarrow> Cmd \<Rightarrow> Cmd" where
  "AddRead ob c = c\<lparr>readObservations := readObservations c @ [ob]\<rparr>"

definition AddWrite :: "Observation \<Rightarrow> Cmd \<Rightarrow> Cmd" where
  "AddWrite ob c = c\<lparr>writeObservations := writeObservations c @ [ob]\<rparr>"

text \<open>
  Modelled from the spec: the new state ("a freshly simulated target-side address/handle
  space").  Its API objects are a value of the type parameter \<open>'a\<close>, changed by the mutate
  step of a command; the allocator side keeps the serial number of the next allocation,
  the allocations not yet freed, and the serial numbers freed so far, in order.
\<close>

record 'a GlobalState =
  apiState :: 'a
  nextSerial :: nat
  liveAllocs :: "AllocResult list"
  freedSerials :: "nat list"

datatype LogEntry =
    Warning nat Cmd string  \<comment> \<open>\<open>log.W\<close> of \<open>write\<close>: index, command, error\<close>
  | Debug nat Cmd           \<comment> \<open>\<open>log.D\<close> of \<open>write\<close>\<close>
  | Error string            \<comment> \<open>\<open>log.E\<close>\<close>

type_synonym U64RangeList = "(u64 \<times> u64) list"

text \<open>
  The builder.  \<open>ctx\<close>, \<open>oldState\<close> and the command builder \<open>cb\<close> are read-only and left
  out; \<open>logs\<close> is the log stream of \<open>ctx\<close>; \<open>imgPrimer\<close> is the local variable of
  \<open>RebuildState\<close> that lives through the image stage, threaded with the builder.
\<close>

record ('o, 'a, 'p) stateBuilder =
  sState :: "'o State"  \<comment> \<open>the field \<open>s\<close>\<close>
  newState :: "'a GlobalState"
  cmds :: "Cmd list"
  readMemories :: "AllocResult list"
  writeMemories :: "AllocResult list"
  memoryIntervals :: U64RangeList
  logs :: "LogEntry list"
  imgPrimer :: "'p option"

text \<open>
  The routines of one rebuild, by name and argument.  Those whose body is not modelled
  take their effect from \<open>routineBody\<close> below.
\<close>

datatype 'o Routine =
    CreateInstance u64 'o
  | CreatePhysicalDevices "(u64 \<times> PhysicalDeviceObject) list"
  | CreateSurface 'o
  | CreateDevice DeviceObject
  | CreateQueue QueueObject
  | CreateSwapchain 'o
  | CreateDeviceMemory DeviceMemoryObject bool
  | CreateBuffer 'o
  | NewImagePrimer
  | CreateImage "'o ImageObject"
  | FreeImagePrimer
  | CreateSampler 'o
  | CreateFence 'o
  | CreateSemaphore 'o
  | CreateEvent 'o
  | CreateCommandPool 'o
  | CreatePipelineCache 'o
  | CreateDescriptorSetLayout 'o
  | CreatePipelineLayout 'o
  | CreateRenderPass 'o
  | CreateShaderModule 'o
  | CreateComputePipeline PipelineObject
  | CreateGraphicsPipeline PipelineObject
  | CreateImageView 'o
  | CreateBufferView 'o
  | CreateDescriptorPool 'o
  | CreateFramebuffer 'o
  | CreateDescriptorSet 'o
  | CreateQueryPool 'o
  | CreateCommandBuffer 'o VkCommandBufferLevel

text \<open>
  The collaborators outside the modelled code, taken as parameters:
  \<^item> \<open>allocRange\<close>: the backing allocator with the encoder, which places a value in the
    new address space given the live allocations, or fails (\<open>AllocDataOrPanic\<close> panics);
  \<^item> \<open>mutate\<close>: the mutate step of a command on the API objects of the new state, with
    the error it returns, if any;
  \<^item> \<open>mergeInterval\<close>: \<open>interval.Merge\<close> on the range list;
  \<^item> \<open>newUnusedID\<close>: a handle for which the given predicate is false;
  \<^item> \<open>freshApiState\<close>: the API side of the state made by \<open>NewStateWithAllocator\<close>;
  \<^item> \<open>routineBody\<close>: the routines of the builder whose body is not modelled here
    (\<open>None\<close> when the routine panics).  These routines range over built-in maps
    (\<open>getQueueFor\<close>, \<open>createPhysicalDevices\<close>, \<open>createSwapchain\<close> and others), so what
    they do is not fixed by the builder they start from: the first argument, a value of
    the type parameter \<open>'c\<close>, stands for the orders in which the maps happen to be visited
    in the run at hand, and differs from run to run.
\<close>

record ('o, 'a, 'p, 'c) Extern =
  allocRange :: "AllocResult list \<Rightarrow> Value \<Rightarrow> (u64 \<times> u64) option"
  mutate :: "Cmd \<Rightarrow> 'a \<Rightarrow> string option \<times> 'a"
  mergeInterval :: "U64RangeList \<Rightarrow> u64 \<times> u64 \<Rightarrow> U64RangeList"
  newUnusedID :: "(u64 \<Rightarrow> bool) \<Rightarrow> u64"
  freshApiState :: 'a
  routineBody :: "'c \<Rightarrow> 'o Routine \<Rightarrow> ('o, 'a, 'p) stateBuilder \<Rightarrow> ('o, 'a, 'p) stateBuilder option"

definition AllocDataOrPanic :: "('o, 'a, 'p, 'c) Extern \<Rightarrow> Value \<Rightarrow> 'a GlobalState
                                 \<Rightarrow> (AllocResult \<times> 'a GlobalState) option" where
  "AllocDataOrPanic X v ns =
     (case allocRange X (liveAllocs ns) v of
        None \<Rightarrow> None
      | Some (base, sz) \<Rightarrow>
          (let a = \<lparr>allocSerial = nextSerial ns, rangeBase = base, rangeSize = sz, stored = v\<rparr>
           in Some (a, ns\<lparr>nextSerial := Suc (nextSerial ns), liveAllocs := liveAllocs ns @ [a]\<rparr>)))"

definition Free :: "AllocResult \<Rightarrow> 'a GlobalState \<Rightarrow> 'a GlobalState" where
  "Free a ns = ns\<lparr>liveAllocs := filter (\<lambda>b. allocSerial b \<noteq> allocSerial a) (liveAllocs ns),
                  freedSerials := freedSerials ns @ [allocSerial a]\<rparr>"

definition MustAllocReadData :: "('o, 'a, 'p, 'c) Extern \<Rightarrow> Value \<Rightarrow> ('o, 'a, 'p) stateBuilder
                                  \<Rightarrow> (AllocResult \<times> ('o, 'a, 'p) stateBuilder) option" where
  "MustAllocReadData X v sb =
     (case AllocDataOrPanic X v (newState sb) of
        None \<Rightarrow> None
      | Some (allocate_result, ns) \<Rightarrow>
          Some (allocate_result,
                sb\<lparr>newState := ns,
                   readMemories := readMemories sb @ [allocate_result],
                   memoryIntervals := mergeInterval X (memoryIntervals sb)
                     (rangeBase allocate_result, rangeBase allocate_result + rangeSize allocate_result)\<rparr>))"

definition MustAllocWriteData :: "('o, 'a, 'p, 'c) Extern \<Rightarrow> Value \<Rightarrow> ('o, 'a, 'p) stateBuilder
                                  \<Rightarrow> (AllocResult \<times> ('o, 'a, 'p) stateBuilder) option" where
  "MustAllocWriteData X v sb =
     (case AllocDataOrPanic X v (newState sb) of
        None \<Rightarrow> None
      | Some (allocate_result, ns) \<Rightarrow>
          Some (allocate_result,
                sb\<lparr>newState := ns,
                   writeMemories := writeMemories sb @ [allocate_result],
                   memoryIntervals := mergeInterval X (memoryIntervals sb)
                     (rangeBase allocate_result, rangeBase allocate_result + rangeSize allocate_result)\<rparr>))"

text \<open>The command as \<open>write\<close> appends it: with the pending reads and writes observed.
  (\<open>write\<close> is a keyword of Isabelle; the function is named \<open>write'\<close> here.)\<close>

definition observed :: "('o, 'a, 'p) stateBuilder \<Rightarrow> Cmd \<Rightarrow> Cmd" where
  "observed sb cmd =
     fold (\<lambda>w c. AddWrite (Data w) c) (writeMemories sb)
       (fold (\<lambda>r c. AddRead (Data r) c) (readMemories sb) cmd)"

definition write' :: "('o, 'a, 'p, 'c) Extern \<Rightarrow> Cmd \<Rightarrow> ('o, 'a, 'p) stateBuilder \<Rightarrow> ('o, 'a, 'p) stateBuilder" where
  "write' X cmd sb =
     (let cmd' = observed sb cmd;
          (err, api) = mutate X cmd' (apiState (newState sb));
          entry = (case err of
                     Some e \<Rightarrow> Warning (length (cmds sb)) cmd' e
                   | None \<Rightarrow> Debug (length (cmds sb)) cmd');
          ns = fold Free (writeMemories sb)
                 (fold Free (readMemories sb) ((newState sb)\<lparr>apiState := api\<rparr>))
      in sb\<lparr>newState := ns,
            cmds := cmds sb @ [cmd'],
            readMemories := [],
            writeMemories := [],
            logs := logs sb @ [entry]\<rparr>)"

section \<open>Scratch transfer buffers\<close>

definition Contains :: "('k \<times> 'v) list \<Rightarrow> 'k \<Rightarrow> bool" where
  "Contains m k = (map_of m k \<noteq> None)"

text \<open>
  \<open>MemoryTypes\<close> is a fixed array of 32 entries (the declaration of the type is not part
  of the sources at hand); entries beyond the list given are zero.
\<close>

definition arrayGet :: "u32 list \<Rightarrow> nat \<Rightarrow> u32" where
  "arrayGet xs i = (if i < length xs then xs ! i else 0)"

definition VK_MEMORY_PROPERTY_HOST_VISIBLE_BIT :: u32 where
  "VK_MEMORY_PROPERTY_HOST_VISIBLE_BIT = 2"

definition VK_BUFFER_USAGE_TRANSFER_SRC_BIT :: u32 where
  "VK_BUFFER_USAGE_TRANSFER_SRC_BIT = 1"

text \<open>
  The loop of \<open>memoryTypeIndexFor\<close> returns the first index \<open>i < MemoryTypeCount\<close> whose
  bit is set in \<open>memTypeBits\<close> and whose property flags include \<open>flags\<close>, or \<open>-1\<close>.  The
  shift \<open>1 << i\<close> is a 32-bit shift: it is 0 from \<open>i = 32\<close> on.
\<close>

definition memoryTypeIndexFor :: "u32 \<Rightarrow> VkPhysicalDeviceMemoryProperties \<Rightarrow> u32 \<Rightarrow> int" where
  "memoryTypeIndexFor memTypeBits props flags =
     (case List.find
             (\<lambda>i. memTypeBits AND push_bit i 1 \<noteq> 0 \<and>
                  flags = arrayGet (MemoryTypes props) i AND flags)
             [0 ..< unat (MemoryTypeCount props)] of
        Some i \<Rightarrow> int i
      | None \<Rightarrow> - 1)"

text \<open>\<open>None\<close>: the physical device of the device is not in the snapshot (nil dereference).\<close>

definition GetScratchBufferMemoryIndex :: "DeviceObject \<Rightarrow> ('o, 'a, 'p) stateBuilder
                                            \<Rightarrow> (u32 \<times> ('o, 'a, 'p) stateBuilder) option" where
  "GetScratchBufferMemoryIndex device sb =
     (case map_of (PhysicalDevices (sState sb)) (PhysicalDevice device) of
        None \<Rightarrow> None
      | Some physicalDeviceObject \<Rightarrow>
          (let type_bits0 = (ucast ((push_bit (unat (MemoryTypeCount (MemoryProperties physicalDeviceObject)))
                                      (1 :: u64)) - 1) :: u32);
               type_bits = (case map_of (TransferBufferMemoryRequirements (sState sb)) (VulkanHandle device) of
                              Some bits \<Rightarrow> bits
                            | None \<Rightarrow> type_bits0);
               index = memoryTypeIndexFor type_bits (MemoryProperties physicalDeviceObject)
                         VK_MEMORY_PROPERTY_HOST_VISIBLE_BIT
           in if index \<ge> 0 then Some (word_of_int index, sb)
              else Some (0, sb\<lparr>logs := logs sb @
                     [Error ''cannnot get the memory type index for host visible memory to create scratch buffer, fallback to use index 0'']\<rparr>)))"

text \<open>
  \<open>allocAndFillScratchBuffer\<close>, in two parts: the statements up to and including the
  \<open>write\<close> of \<open>VkMapMemory\<close>, and the rest.  The first part hands on the handles and the two
  allocations \<open>dat\<close> and \<open>atdata\<close>, which are made with \<open>AllocDataOrPanic\<close> directly and
  freed by hand at the end of the second part.
\<close>

definition scratchCreateAndMap ::
  "('o, 'a, 'p, 'c) Extern \<Rightarrow> DeviceObject \<Rightarrow> 8 word list \<Rightarrow> u32 list \<Rightarrow> ('o, 'a, 'p) stateBuilder
   \<Rightarrow> ((VkBuffer \<times> VkDeviceMemory \<times> AllocResult \<times> AllocResult) \<times> ('o, 'a, 'p) stateBuilder) option" where
  "scratchCreateAndMap X device data usages sb0 =
     (let buffer = newUnusedID X (\<lambda>x. Contains (Buffers (sState sb0)) x);
          deviceMemory = newUnusedID X (\<lambda>x. Contains (DeviceMemories (sState sb0)) x);
          size' = (of_nat (length data) :: VkDeviceSize);
          usageFlags = fold (\<lambda>u f. f OR u) usages VK_BUFFER_USAGE_TRANSFER_SRC_BIT
      in do {
        (createInfo, sb) \<leftarrow> MustAllocReadData X
           (VkBufferCreateInfo VK_STRUCTURE_TYPE_BUFFER_CREATE_INFO 0 0 size' usageFlags
              VK_SHARING_MODE_EXCLUSIVE 0 0) sb0;
        (pBuffer, sb) \<leftarrow> MustAllocWriteData X (Handle buffer) sb;
        sb \<leftarrow> Some (write' X (newCmd (VkCreateBuffer (VulkanHandle device) (Ptr createInfo) 0
                                        (Ptr pBuffer) VK_SUCCESS)) sb);
        (memoryTypeIndex, sb) \<leftarrow> GetScratchBufferMemoryIndex device sb;
        allocSize \<leftarrow> Some ((size' * 2 + 255) AND NOT 255);
        (allocateInfo, sb) \<leftarrow> MustAllocReadData X
           (VkMemoryAllocateInfo VK_STRUCTURE_TYPE_MEMORY_ALLOCATE_INFO 0 allocSize memoryTypeIndex) sb;
        (pMemory, sb) \<leftarrow> MustAllocWriteData X (Handle deviceMemory) sb;
        sb \<leftarrow> Some (write' X (newCmd (VkAllocateMemory (VulkanHandle device) (Ptr allocateInfo) 0
                                        (Ptr pMemory) VK_SUCCESS)) sb);
        sb \<leftarrow> Some (write' X (newCmd (VkBindBufferMemory (VulkanHandle device) buffer deviceMemory 0
                                        VK_SUCCESS)) sb);
        (dat, ns) \<leftarrow> AllocDataOrPanic X (Bytes data) (newState sb);
        (atdata, ns) \<leftarrow> AllocDataOrPanic X (Pointer (Ptr dat)) ns;
        sb \<leftarrow> Some (write' X
                 (AddWrite (Data atdata) (AddRead (Data atdata)
                    (newCmd (VkMapMemory (VulkanHandle device) deviceMemory 0 size' 0 (Ptr atdata)
                               VK_SUCCESS))))
                 (sb\<lparr>newState := ns\<rparr>));
        Some ((buffer, deviceMemory, dat, atdata), sb)
      })"

definition scratchFlushAndUnmap ::
  "('o, 'a, 'p, 'c) Extern \<Rightarrow> DeviceObject \<Rightarrow> 8 word list \<Rightarrow> VkDeviceMemory \<Rightarrow> AllocResult \<Rightarrow> AllocResult
   \<Rightarrow> ('o, 'a, 'p) stateBuilder \<Rightarrow> ('o, 'a, 'p) stateBuilder option" where
  "scratchFlushAndUnmap X device data deviceMemory dat atdata sb0 =
     (let size' = (of_nat (length data) :: VkDeviceSize)
      in do {
        (range, sb) \<leftarrow> MustAllocReadData X
           (VkMappedMemoryRange VK_STRUCTURE_TYPE_MAPPED_MEMORY_RANGE 0 deviceMemory 0 size') sb0;
        sb \<leftarrow> Some (write' X
                 (AddRead (Data dat)
                    (newCmd (VkFlushMappedMemoryRanges (VulkanHandle device) 1 (Ptr range) VK_SUCCESS)))
                 sb);
        sb \<leftarrow> Some (write' X (newCmd (VkUnmapMemory (VulkanHandle device) deviceMemory)) sb);
        Some (sb\<lparr>newState := Free atdata (Free dat (newState sb))\<rparr>)
      })"

definition allocAndFillScratchBuffer ::
  "('o, 'a, 'p, 'c) Extern \<Rightarrow> DeviceObject \<Rightarrow> 8 word list \<Rightarrow> u32 list \<Rightarrow> ('o, 'a, 'p) stateBuilder
   \<Rightarrow> ((VkBuffer \<times> VkDeviceMemory) \<times> ('o, 'a, 'p) stateBuilder) option" where
  "allocAndFillScratchBuffer X device data usages sb0 =
     do {
       ((buffer, deviceMemory, dat, atdata), sb) \<leftarrow> scratchCreateAndMap X device data usages sb0;
       sb \<leftarrow> scratchFlushAndUnmap X device data deviceMemory dat atdata sb;
       Some ((buffer, deviceMemory), sb)
     }"

definition freeScratchBuffer :: "('o, 'a, 'p, 'c) Extern \<Rightarrow> DeviceObject \<Rightarrow> VkBuffer \<Rightarrow> VkDeviceMemory
                                  \<Rightarrow> ('o, 'a, 'p) stateBuilder \<Rightarrow> ('o, 'a, 'p) stateBuilder" where
  "freeScratchBuffer X device buffer mem sb =
     write' X (newCmd (VkFreeMemory (VulkanHandle device) mem 0))
       (write' X (newCmd (VkDestroyBuffer (VulkanHandle device) buffer 0)) sb)"

section \<open>Queues\<close>

definition createQueue :: "('o, 'a, 'p, 'c) Extern \<Rightarrow> QueueObject
                            \<Rightarrow> ('o, 'a, 'p) stateBuilder \<Rightarrow> ('o, 'a, 'p) stateBuilder option" where
  "createQueue X q sb0 =
     do {
       (pQueue, sb) \<leftarrow> MustAllocWriteData X (Handle (VulkanHandle q)) sb0;
       Some (write' X (newCmd (VkGetDeviceQueue (Device q) (Family q) (Index q) (Ptr pQueue))) sb)
     }"

text \<open>
  \<open>getQueueFor\<close> picks the queue on which a routine submits its commands.  A nil queue
  or map pointer is \<open>None\<close>.  Both loops range over the built-in map behind the queue
  table, so each has an iteration order of its own (loops \<open>n\<close> and \<open>n + 1\<close> of the
  order given); the first queue met that passes the test is returned.  The inner loop over
  \<open>queueFamilyIndices\<close> only looks for a value equal to the family of the queue.
\<close>

definition getQueueFor :: "rangeOrder \<Rightarrow> nat \<Rightarrow> QueueObject option \<Rightarrow> VkDevice
                            \<Rightarrow> (u32 \<times> u32) list option \<Rightarrow> ('o, 'a, 'p) stateBuilder
                            \<Rightarrow> QueueObject option" where
  "getQueueFor ord n lastBoundQueue device queueFamilyIndices sb =
     (case lastBoundQueue of
        Some q \<Rightarrow> lastBoundQueue
      | None \<Rightarrow>
          (case (case queueFamilyIndices of
                   None \<Rightarrow> None
                 | Some indices \<Rightarrow>
                     List.find (\<lambda>v. Device v = device \<and> Family v \<in> snd ` set (Entries indices))
                       (map snd (rangeMap ord n (Entries (Queues (sState sb)))))) of
             Some v \<Rightarrow> Some v
           | None \<Rightarrow>
               (case List.find (\<lambda>v. Device v = device)
                       (map snd (rangeMap ord (Suc n) (Entries (Queues (sState sb))))) of
                  Some v \<Rightarrow> Some v
                | None \<Rightarrow> lastBoundQueue)))"

section \<open>Device memory and images\<close>

definition createDeviceMemory :: "('o, 'a, 'p, 'c) Extern \<Rightarrow> DeviceMemoryObject \<Rightarrow> bool
                                   \<Rightarrow> ('o, 'a, 'p) stateBuilder \<Rightarrow> ('o, 'a, 'p) stateBuilder option" where
  "createDeviceMemory X mem allowDedicatedNV sb0 =
     (if \<not> allowDedicatedNV \<and> DedicatedAllocationNV mem \<noteq> None then Some sb0
      else do {
        (pNext, sb) \<leftarrow>
           (case DedicatedAllocationNV mem of
              None \<Rightarrow> Some (0, sb0)
            | Some ded \<Rightarrow> do {
                (info, sb) \<leftarrow> MustAllocReadData X
                   (VkDedicatedAllocationMemoryAllocateInfoNV
                      VK_STRUCTURE_TYPE_DEDICATED_ALLOCATION_MEMORY_ALLOCATE_INFO_NV 0 (fst ded) (snd ded)) sb0;
                Some (Ptr info, sb)
              });
        (allocateInfo, sb) \<leftarrow> MustAllocReadData X
           (VkMemoryAllocateInfo VK_STRUCTURE_TYPE_MEMORY_ALLOCATE_INFO pNext
              (AllocationSize mem) (MemoryTypeIndex mem)) sb;
        (pMemory, sb) \<leftarrow> MustAllocWriteData X (Handle (VulkanHandle mem)) sb;
        sb \<leftarrow> Some (write' X (newCmd (VkAllocateMemory (Device mem) (Ptr allocateInfo) 0
                                        (Ptr pMemory) VK_SUCCESS)) sb);
        (if MappedLocation mem \<noteq> 0 then do {
           (ppData, sb) \<leftarrow> MustAllocWriteData X (Pointer (MappedLocation mem)) sb;
           Some (write' X (newCmd (VkMapMemory (Device mem) (VulkanHandle mem) (MappedOffset mem)
                                     (MappedSize mem) 0 (Ptr ppData) VK_SUCCESS)) sb)
         } else Some sb)
      })"

text \<open>
  \<open>createImage\<close> returns at once for a swapchain image; the rest of its body (creation,
  binding and priming, which calls \<open>getQueueFor\<close>) is not modelled and is taken from
  \<open>routineBody\<close>.
\<close>

definition createImage :: "('o, 'a, 'p, 'c) Extern \<Rightarrow> 'c \<Rightarrow> 'o ImageObject
                            \<Rightarrow> ('o, 'a, 'p) stateBuilder \<Rightarrow> ('o, 'a, 'p) stateBuilder option" where
  "createImage X ch img sb =
     (if IsSwapchainImage img then Some sb else routineBody X ch (CreateImage img) sb)"

section \<open>The rebuild\<close>

text \<open>The builder as \<open>RebuildState\<close> sets it up.\<close>

definition newBuilder :: "('o, 'a, 'p, 'c) Extern \<Rightarrow> 'o State \<Rightarrow> ('o, 'a, 'p) stateBuilder" where
  "newBuilder X st =
     \<lparr>sState = st,
      newState = \<lparr>apiState = freshApiState X, nextSerial = 0, liveAllocs = [], freedSerials = []\<rparr>,
      cmds = [], readMemories = [], writeMemories = [], memoryIntervals = [], logs = [],
      imgPrimer = None\<rparr>"

text \<open>A loop over a list of items whose body may panic.\<close>

fun forEach :: "'x list \<Rightarrow> ('x \<Rightarrow> 'b \<Rightarrow> 'b option) \<Rightarrow> 'b \<Rightarrow> 'b option" where
  "forEach [] f sb = Some sb"
| "forEach (x # xs) f sb = (case f x sb of None \<Rightarrow> None | Some sb' \<Rightarrow> forEach xs f sb')"

text \<open>One call of a routine of the builder in a run with the map iteration orders \<open>ch\<close>:
  the modelled ones by their definition, the others by \<open>routineBody\<close>.\<close>

definition exec :: "('o, 'a, 'p, 'c) Extern \<Rightarrow> 'c \<Rightarrow> 'o Routine \<Rightarrow> ('o, 'a, 'p) stateBuilder
                     \<Rightarrow> ('o, 'a, 'p) stateBuilder option" where
  "exec X ch r sb =
     (case r of
        CreateQueue q \<Rightarrow> createQueue X q sb
      | CreateDeviceMemory mem allowDedicatedNV \<Rightarrow> createDeviceMemory X mem allowDedicatedNV sb
      | CreateImage img \<Rightarrow> createImage X ch img sb
      | _ \<Rightarrow> routineBody X ch r sb)"

text \<open>\<open>m.Get(k)\<close> on a table of objects yields nil for a missing key, and the routine
  called with nil panics.\<close>

definition withObject :: "(u64 \<times> 'v) list \<Rightarrow> u64 \<Rightarrow> ('v \<Rightarrow> 'b \<Rightarrow> 'b option) \<Rightarrow> 'b \<Rightarrow> 'b option" where
  "withObject m k f sb = (case map_of m k of None \<Rightarrow> None | Some v \<Rightarrow> f v sb)"

text \<open>
  \<open>RebuildState\<close>.  The two calls of \<open>GetPipelinesInOrder\<close> range over two different
  maps; each has its own iteration order.  \<open>ch\<close> stands for the iteration orders met
  inside the routines that are not modelled.
\<close>

definition RebuildState :: "('o, 'a, 'p, 'c) Extern \<Rightarrow> 'c \<Rightarrow> rangeOrder \<Rightarrow> rangeOrder \<Rightarrow> 'o State
                             \<Rightarrow> (Cmd list \<times> U64RangeList) option" where
  "RebuildState X ch ordC ordG st =
     do {
       sb \<leftarrow> Some (newBuilder X st);
       sb \<leftarrow> forEach (Entries (Instances st)) (\<lambda>(k, v). exec X ch (CreateInstance k v)) sb;
       sb \<leftarrow> exec X ch (CreatePhysicalDevices (PhysicalDevices st)) sb;
       sb \<leftarrow> forEach (Values (Surfaces st)) (\<lambda>su. exec X ch (CreateSurface su)) sb;
       sb \<leftarrow> forEach (Values (Devices st)) (\<lambda>d. exec X ch (CreateDevice d)) sb;
       sb \<leftarrow> forEach (Values (Queues st)) (\<lambda>q. exec X ch (CreateQueue q)) sb;
       sb \<leftarrow> forEach (Values (Swapchains st)) (\<lambda>swp. exec X ch (CreateSwapchain swp)) sb;
       sb \<leftarrow> forEach (Values (DeviceMemories st)) (\<lambda>mem. exec X ch (CreateDeviceMemory mem False)) sb;
       sb \<leftarrow> forEach (Values (Buffers st)) (\<lambda>buf. exec X ch (CreateBuffer buf)) sb;
       sb \<leftarrow> exec X ch NewImagePrimer sb;
       sb \<leftarrow> forEach (Values (Images st)) (\<lambda>img. exec X ch (CreateImage img)) sb;
       sb \<leftarrow> exec X ch FreeImagePrimer sb;
       sb \<leftarrow> forEach (Values (Samplers st)) (\<lambda>smp. exec X ch (CreateSampler smp)) sb;
       sb \<leftarrow> forEach (Values (Fences st)) (\<lambda>fnc. exec X ch (CreateFence fnc)) sb;
       sb \<leftarrow> forEach (Values (Semaphores st)) (\<lambda>sem. exec X ch (CreateSemaphore sem)) sb;
       sb \<leftarrow> forEach (Values (Events st)) (\<lambda>evt. exec X ch (CreateEvent evt)) sb;
       sb \<leftarrow> forEach (Values (CommandPools st)) (\<lambda>cp. exec X ch (CreateCommandPool cp)) sb;
       sb \<leftarrow> forEach (Values (PipelineCaches st)) (\<lambda>pc. exec X ch (CreatePipelineCache pc)) sb;
       sb \<leftarrow> forEach (Values (DescriptorSetLayouts st)) (\<lambda>dsl. exec X ch (CreateDescriptorSetLayout dsl)) sb;
       sb \<leftarrow> forEach (Values (PipelineLayouts st)) (\<lambda>pl. exec X ch (CreatePipelineLayout pl)) sb;
       sb \<leftarrow> forEach (Values (RenderPasses st)) (\<lambda>rp. exec X ch (CreateRenderPass rp)) sb;
       sb \<leftarrow> forEach (Values (ShaderModules st)) (\<lambda>sm. exec X ch (CreateShaderModule sm)) sb;
       cps \<leftarrow> GetPipelinesInOrder ordC st True;
       sb \<leftarrow> forEach cps
               (\<lambda>cp. withObject (ComputePipelines st) cp (\<lambda>p. exec X ch (CreateComputePipeline p))) sb;
       gps \<leftarrow> GetPipelinesInOrder ordG st False;
       sb \<leftarrow> forEach gps
               (\<lambda>gp. withObject (GraphicsPipelines st) gp (\<lambda>p. exec X ch (CreateGraphicsPipeline p))) sb;
       sb \<leftarrow> forEach (Values (ImageViews st)) (\<lambda>iv. exec X ch (CreateImageView iv)) sb;
       sb \<leftarrow> forEach (Values (BufferViews st)) (\<lambda>bv. exec X ch (CreateBufferView bv)) sb;
       sb \<leftarrow> forEach (Values (DescriptorPools st)) (\<lambda>dp. exec X ch (CreateDescriptorPool dp)) sb;
       sb \<leftarrow> forEach (Values (Framebuffers st)) (\<lambda>fb. exec X ch (CreateFramebuffer fb)) sb;
       sb \<leftarrow> forEach (Values (DescriptorSets st)) (\<lambda>fb. exec X ch (CreateDescriptorSet fb)) sb;
       sb \<leftarrow> forEach (Values (QueryPools st)) (\<lambda>qp. exec X ch (CreateQueryPool qp)) sb;
       sb \<leftarrow> forEach (Values (CommandBuffers st))
               (\<lambda>qp. exec X ch (CreateCommandBuffer qp VK_COMMAND_BUFFER_LEVEL_SECONDARY)) sb;
       sb \<leftarrow> forEach (Values (CommandBuffers st))
               (\<lambda>qp. exec X ch (CreateCommandBuffer qp VK_COMMAND_BUFFER_LEVEL_PRIMARY)) sb;
       Some (cmds sb, memoryIntervals sb)
     }"

text \<open>
  The stage order as the specification lists it: the number of the stage to which a
  routine call belongs, and the calls of one rebuild stage by stage.
\<close>

fun stage :: "'o Routine \<Rightarrow> nat" where
  "stage (CreateInstance k v) = 0"
| "stage (CreatePhysicalDevices m) = 1"
| "stage (CreateSurface v) = 2"
| "stage (CreateDevice v) = 3"
| "stage (CreateQueue v) = 4"
| "stage (CreateSwapchain v) = 5"
| "stage (CreateDeviceMemory v a) = 6"
| "stage (CreateBuffer v) = 7"
| "stage NewImagePrimer = 8"
| "stage (CreateImage v) = 8"
| "stage FreeImagePrimer = 8"
| "stage (CreateSampler v) = 9"
| "stage (CreateFence v) = 10"
| "stage (CreateSemaphore v) = 11"
| "stage (CreateEvent v) = 12"
| "stage (CreateCommandPool v) = 13"
| "stage (CreatePipelineCache v) = 14"
| "stage (CreateDescriptorSetLayout v) = 15"
| "stage (CreatePipelineLayout v) = 16"
| "stage (CreateRenderPass v) = 17"
| "stage (CreateShaderModule v) = 18"
| "stage (CreateComputePipeline v) = 19"
| "stage (CreateGraphicsPipeline v) = 20"
| "stage (CreateImageView v) = 21"
| "stage (CreateBufferView v) = 22"
| "stage (CreateDescriptorPool v) = 23"
| "stage (CreateFramebuffer v) = 24"
| "stage (CreateDescriptorSet v) = 25"
| "stage (CreateQueryPool v) = 26"
| "stage (CreateCommandBuffer v VK_COMMAND_BUFFER_LEVEL_SECONDARY) = 27"
| "stage (CreateCommandBuffer v VK_COMMAND_BUFFER_LEVEL_PRIMARY) = 28"

definition stagesBeforePipelines :: "'o State \<Rightarrow> 'o Routine list" where
  "stagesBeforePipelines st =
     map (\<lambda>(k, v). CreateInstance k v) (Entries (Instances st)) @
     [CreatePhysicalDevices (PhysicalDevices st)] @
     map CreateSurface (Values (Surfaces st)) @
     map CreateDevice (Values (Devices st)) @
     map CreateQueue (Values (Queues st)) @
     map CreateSwapchain (Values (Swapchains st)) @
     map (\<lambda>mem. CreateDeviceMemory mem False) (Values (DeviceMemories st)) @
     map CreateBuffer (Values (Buffers st)) @
     ([NewImagePrimer] @ map CreateImage (Values (Images st)) @ [FreeImagePrimer]) @
     map CreateSampler (Values (Samplers st)) @
     map CreateFence (Values (Fences st)) @
     map CreateSemaphore (Values (Semaphores st)) @
     map CreateEvent (Values (Events st)) @
     map CreateCommandPool (Values (CommandPools st)) @
     map CreatePipelineCache (Values (PipelineCaches st)) @
     map CreateDescriptorSetLayout (Values (DescriptorSetLayouts st)) @
     map CreatePipelineLayout (Values (PipelineLayouts st)) @
     map CreateRenderPass (Values (RenderPasses st)) @
     map CreateShaderModule (Values (ShaderModules st))"

definition stagesAfterPipelines :: "'o State \<Rightarrow> 'o Routine list" where
  "stagesAfterPipelines st =
     map CreateImageView (Values (ImageViews st)) @
     map CreateBufferView (Values (BufferViews st)) @
     map CreateDescriptorPool (Values (DescriptorPools st)) @
     map CreateFramebuffer (Values (Framebuffers st)) @
     map CreateDescriptorSet (Values (DescriptorSets st)) @
     map CreateQueryPool (Values (QueryPools st)) @
     map (\<lambda>cb. CreateCommandBuffer cb VK_COMMAND_BUFFER_LEVEL_SECONDARY) (Values (CommandBuffers st)) @
     map (\<lambda>cb. CreateCommandBuffer cb VK_COMMAND_BUFFER_LEVEL_PRIMARY) (Values (CommandBuffers st))"

text \<open>The pipeline objects for a list of handles; \<open>None\<close> when a handle is not a key of the
  table.\<close>

fun lookupAll :: "(u64 \<times> 'v) list \<Rightarrow> u64 list \<Rightarrow> 'v list option" where
  "lookupAll m [] = Some []"
| "lookupAll m (k # ks) =
     (case map_of m k of
        None \<Rightarrow> None
      | Some v \<Rightarrow> (case lookupAll m ks of None \<Rightarrow> None | Some vs \<Rightarrow> Some (v # vs)))"

definition rebuildPlan :: "rangeOrder \<Rightarrow> rangeOrder \<Rightarrow> 'o State \<Rightarrow> 'o Routine list option" where
  "rebuildPlan ordC ordG st =
     do {
       cps \<leftarrow> GetPipelinesInOrder ordC st True;
       cpos \<leftarrow> lookupAll (ComputePipelines st) cps;
       gps \<leftarrow> GetPipelinesInOrder ordG st False;
       gpos \<leftarrow> lookupAll (GraphicsPipelines st) gps;
       Some (stagesBeforePipelines st @
             map CreateComputePipeline cpos @
             map CreateGraphicsPipeline gpos @
             stagesAfterPipelines st)
     }"

section \<open>Sample collaborators and snapshots\<close>

text \<open>
  A sample of the collaborators: every allocation gets a 16-byte range placed by the
  number of live allocations, every mutate step succeeds, ranges are appended to the list
  as they come, and the routines that are not modelled do nothing.
\<close>

definition plainExtern :: "(unit, unit, unit, unit) Extern" where
  "plainExtern =
     \<lparr>allocRange = (\<lambda>live v. Some (4096 + 256 * of_nat (length live), 16)),
      mutate = (\<lambda>c a. (None, a)),
      mergeInterval = (\<lambda>l r. l @ [r]),
      newUnusedID = (\<lambda>used. if used 1000 then 1001 else 1000),
      freshApiState = (),
      routineBody = (\<lambda>ch r sb. Some sb)\<rparr>"

text \<open>The same collaborators with a mutate step that fails on every command.\<close>

definition failingExtern :: "(unit, unit, unit, unit) Extern" where
  "failingExtern = plainExtern\<lparr>mutate := (\<lambda>c a. (Some ''invalid handle'', a))\<rparr>"

text \<open>A snapshot with one physical device (one host-visible memory type) and one device.\<close>

definition deviceState :: "unit State" where
  "deviceState = emptyState
     \<lparr>PhysicalDevices := [(1, \<lparr>VulkanHandle = 1,
          MemoryProperties = \<lparr>MemoryTypeCount = 1, MemoryTypes = [2]\<rparr>\<rparr>)],
      Devices := [(2, \<lparr>VulkanHandle = 2, PhysicalDevice = 1\<rparr>)]\<rparr>"

definition theDevice :: DeviceObject where
  "theDevice = \<lparr>VulkanHandle = 2, PhysicalDevice = 1\<rparr>"

text \<open>The same snapshot with two queues of one family on the device.\<close>

definition queueAt :: "u64 \<Rightarrow> u32 \<Rightarrow> u64 \<times> QueueObject" where
  "queueAt h i = (h, \<lparr>VulkanHandle = h, Device = 2, Family = 0, Index = i\<rparr>)"

definition twoQueues :: "unit State" where
  "twoQueues = deviceState\<lparr>Queues := [queueAt 6 0, queueAt 7 1]\<rparr>"

definition allocatorNeverFails :: "('o, 'a, 'p, 'c) Extern \<Rightarrow> bool" where
  "allocatorNeverFails X = (\<forall>live v. allocRange X live v \<noteq> None)"

text \<open>
  The allocation sizes that a command sequence asks for: for each \<open>VkAllocateMemory\<close>, the
  size field of the \<open>VkMemoryAllocateInfo\<close> that its first pointer argument refers to.
\<close>

fun memoryAllocateInfoAt :: "u64 \<Rightarrow> Observation \<Rightarrow> VkDeviceSize list" where
  "memoryAllocateInfoAt p (base, n, VkMemoryAllocateInfo t nx sz idx) = (if base = p then [sz] else [])"
| "memoryAllocateInfoAt p (base, n, v) = []"

definition allocationSizeOf :: "Cmd \<Rightarrow> VkDeviceSize list" where
  "allocationSizeOf c =
     (case call c of
        VkAllocateMemory d p a m r \<Rightarrow> concat (map (memoryAllocateInfoAt p) (readObservations c))
      | _ \<Rightarrow> [])"

definition allocationSizes :: "Cmd list \<Rightarrow> VkDeviceSize list" where
  "allocationSizes cs = concat (map allocationSizeOf cs)"










text \<open>
  A sample of collaborators that shows which routine was called on which object: the
  attribute of an object is its handle, and each routine that is not modelled emits one
  command that names the routine by its stage and the object by its handle.
\<close>

fun routineHandles :: "u64 Routine \<Rightarrow> u64 list" where
  "routineHandles (CreateInstance k v) = [k]"
| "routineHandles (CreatePhysicalDevices m) = Keys m"
| "routineHandles (CreateDevice d) = [VulkanHandle d]"
| "routineHandles (CreateDeviceMemory mem a) = [VulkanHandle mem]"
| "routineHandles (CreateImage img) = [VulkanHandle img]"
| "routineHandles (CreateComputePipeline p) = [VulkanHandle p]"
| "routineHandles (CreateGraphicsPipeline p) = [VulkanHandle p]"
| "routineHandles NewImagePrimer = []"
| "routineHandles FreeImagePrimer = []"
| "routineHandles (CreateSurface v) = [v]"
| "routineHandles (CreateQueue q) = [VulkanHandle q]"
| "routineHandles (CreateSwapchain v) = [v]"
| "routineHandles (CreateBuffer v) = [v]"
| "routineHandles (CreateSampler v) = [v]"
| "routineHandles (CreateFence v) = [v]"
| "routineHandles (CreateSemaphore v) = [v]"
| "routineHandles (CreateEvent v) = [v]"
| "routineHandles (CreateCommandPool v) = [v]"
| "routineHandles (CreatePipelineCache v) = [v]"
| "routineHandles (CreateDescriptorSetLayout v) = [v]"
| "routineHandles (CreatePipelineLayout v) = [v]"
| "routineHandles (CreateRenderPass v) = [v]"
| "routineHandles (CreateShaderModule v) = [v]"
| "routineHandles (CreateImageView v) = [v]"
| "routineHandles (CreateBufferView v) = [v]"
| "routineHandles (CreateDescriptorPool v) = [v]"
| "routineHandles (CreateFramebuffer v) = [v]"
| "routineHandles (CreateDescriptorSet v) = [v]"
| "routineHandles (CreateQueryPool v) = [v]"
| "routineHandles (CreateCommandBuffer v l) = [v]"

definition tracingExtern :: "(u64, unit, unit, unit) Extern" where
  "tracingExtern =
     \<lparr>allocRange = (\<lambda>live v. Some (4096 + 256 * of_nat (length live), 16)),
      mutate = (\<lambda>c a. (None, a)),
      mergeInterval = (\<lambda>l r. l @ [r]),
      newUnusedID = (\<lambda>used. if used 1000 then 1001 else 1000),
      freshApiState = (),
      routineBody = (\<lambda>ch r sb. Some (sb\<lparr>cmds := cmds sb @
                        [newCmd (VkCall ''routine'' (of_nat (stage r) # routineHandles r))]\<rparr>))\<rparr>"

text \<open>The routines that are not modelled only append to the command sequence (in the
  source, \<open>write\<close> is the one place that assigns \<open>sb.cmds\<close>).\<close>

definition appendOnly :: "('o, 'a, 'p, 'c) Extern \<Rightarrow> bool" where
  "appendOnly X = (\<forall>ch r sb sb'. routineBody X ch r sb = Some sb' \<longrightarrow> (\<exists>new. cmds sb' = cmds sb @ new))"

text \<open>None of the routines that are not modelled panics.\<close>

definition routinesReturn :: "('o, 'a, 'p, 'c) Extern \<Rightarrow> bool" where
  "routinesReturn X = (\<forall>ch r sb. routineBody X ch r sb \<noteq> None)"

text \<open>Every object of a table is filed under its own handle.\<close>

definition keyedByHandle :: "(u64 \<times> ('x VkObject_scheme)) list \<Rightarrow> bool" where
  "keyedByHandle m = (\<forall>(k, v) \<in> set m. VulkanHandle v = k)"

text \<open>Two iteration orders for the map of the resolver: by increasing and by decreasing
  handle (for handles up to 10).\<close>

definition lowFirst :: rangeOrder where
  "lowFirst n k = unat k"

definition highFirst :: rangeOrder where
  "highFirst n k = 10 - unat k"


definition smallSnapshot :: "u64 State" where
  "smallSnapshot = emptyState
     \<lparr>Instances := [(1, 1)],
      Buffers := [(4, 4)],
      Images := [(5, \<lparr>VulkanHandle = 5, IsSwapchainImage = True, ImageAttributes = 5\<rparr>),
                 (6, \<lparr>VulkanHandle = 6, IsSwapchainImage = False, ImageAttributes = 6\<rparr>)],
      ShaderModules := [(7, 7)],
      ComputePipelines := [pipelineObj 9 8, pipelineObj 8 0],
      CommandBuffers := [(3, 3)]\<rparr>"

text \<open>
  A sample of routine bodies in which the map iteration orders of the run matter: the
  query pool routine asks \<open>getQueueFor\<close> for a queue of device 2, as \<open>createQueryPool\<close>
  does for the device of its pool, and submits to the queue it gets; the other routines
  that are not modelled do nothing.  The snapshot has the two queues and one query pool.
\<close>

definition queuePickingExtern :: "(unit, unit, unit, rangeOrder) Extern" where
  "queuePickingExtern =
     \<lparr>allocRange = (\<lambda>live v. Some (4096 + 256 * of_nat (length live), 16)),
      mutate = (\<lambda>c a. (None, a)),
      mergeInterval = (\<lambda>l r. l @ [r]),
      newUnusedID = (\<lambda>used. if used 1000 then 1001 else 1000),
      freshApiState = (),
      routineBody = (\<lambda>ch r sb.
        case r of
          CreateQueryPool qp \<Rightarrow>
            (case getQueueFor ch 0 None 2 None sb of
               None \<Rightarrow> None
             | Some queue \<Rightarrow>
                 Some (sb\<lparr>cmds := cmds sb @ [newCmd (VkCall ''vkQueueSubmit'' [VulkanHandle queue])]\<rparr>))
        | _ \<Rightarrow> Some sb)\<rparr>"

definition queryPoolState :: "unit State" where
  "queryPoolState = twoQueues\<lparr>QueryPools := [(9, ())]\<rparr>"

section \<open>Properties of the sparse binding predicate\<close>

lemma firstBeyond_none: "\<forall>k \<in> set ks. \<not> k > lim \<Longrightarrow> firstBeyond ks lim i = - 1"
  by (induction ks arbitrary: i) auto

lemma firstBeyond_range:
  "firstBeyond ks lim i \<noteq> - 1 \<Longrightarrow> int i \<le> firstBeyond ks lim i \<and> firstBeyond ks lim i < int (i + length ks)"
proof (induction ks arbitrary: i)
  case Nil
  then show ?case by simp
next
  case (Cons r rs)
  show ?case
  proof (cases "r > lim")
    case True
    then show ?thesis by simp
  next
    case False
    with Cons.prems have "firstBeyond rs lim (Suc i) \<noteq> - 1" by simp
    from Cons.IH [OF this] False show ?thesis by simp
  qed
qed

lemma unat_span_le: "unat (k + s) \<le> unat k + unat (s :: u64)"
  by (simp add: unat_word_ariths)

lemma coveredByte_key:
  assumes "k \<in> set (Keys bindings)" and "unat k \<le> b" and "e \<le> k + Size (GetBind bindings k)"
    and "b < unat e"
  shows "coveredByte bindings b"
proof -
  from assms(3) have "unat e \<le> unat (k + Size (GetBind bindings k))"
    by (simp add: word_le_nat_alt)
  also have "\<dots> \<le> unat k + unat (Size (GetBind bindings k))" by (rule unat_span_le)
  finally have "b < unat k + unat (Size (GetBind bindings k))" using assms(4) by simp
  with assms(1,2) show ?thesis unfolding coveredByte_def by blast
qed

lemma walkBack_covers:
  assumes "walkBack ks bindings offset j e = Some (i, e')"
    and "j < length ks" and "set ks = set (Keys bindings)"
    and "\<forall>b. unat e \<le> b \<and> b < E \<longrightarrow> coveredByte bindings b"
  shows "(\<forall>b. unat e' \<le> b \<and> b < E \<longrightarrow> coveredByte bindings b) \<and> i \<le> j"
  using assms
proof (induction j arbitrary: e)
  case 0
  then show ?case by simp
next
  case (Suc j)
  show ?case
  proof (cases "e > offset")
    case False
    with Suc.prems show ?thesis by simp
  next
    case True
    let ?r = "ks ! Suc j"
    from Suc.prems(1) True have ge: "e \<le> ?r + Size (GetBind bindings ?r)"
      by (simp add: Let_def split: if_splits)
    with Suc.prems(1) True have rec: "walkBack ks bindings offset j ?r = Some (i, e')"
      by (simp add: Let_def)
    from Suc.prems(2,3) have key: "?r \<in> set (Keys bindings)"
      using nth_mem by blast
    have inv: "\<forall>b. unat ?r \<le> b \<and> b < E \<longrightarrow> coveredByte bindings b"
    proof (intro allI impI)
      fix b assume b: "unat ?r \<le> b \<and> b < E"
      show "coveredByte bindings b"
      proof (cases "unat e \<le> b")
        case True
        with b Suc.prems(4) show ?thesis by blast
      next
        case False
        then have "b < unat e" by simp
        from coveredByte_key [OF key _ ge this] b show ?thesis by blast
      qed
    qed
    from Suc.prems(2) have "j < length ks" by simp
    from Suc.IH [OF rec this Suc.prems(3) inv] show ?thesis by auto
  qed
qed

lemma IsFullyBound_covers:
  assumes full: "IsFullyBound offset size' bindings"
    and nowrap: "unat offset + unat size' < 2 ^ 64"
    and b: "unat offset \<le> b" "b < unat offset + unat size'"
  shows "coveredByte bindings b"
proof -
  let ?ks = "Keys bindings"
  let ?o = "firstBeyond ?ks (offset + size') 0"
  from full have o: "?o \<noteq> - 1" "?o \<noteq> 0"
    by (auto simp: IsFullyBound_def Let_def split: if_splits)
  from firstBeyond_range [OF o(1)] o(2) have rng: "0 < ?o" "?o < int (length ?ks)" by auto
  then have j: "nat (?o - 1) < length ?ks" by auto
  from nowrap have E: "unat (offset + size') = unat offset + unat size'"
    by (simp add: unat_word_ariths)
  from full o obtain i e' where
    wb: "walkBack ?ks bindings offset (nat (?o - 1)) (offset + size') = Some (i, e')"
    and fin: "e' \<le> offset \<or> (i = 0 \<and> ?ks ! 0 \<le> offset \<and> e' \<le> ?ks ! 0 + Size (GetBind bindings (?ks ! 0)))"
    by (auto simp: IsFullyBound_def Let_def split: if_splits option.splits)
  have "\<forall>b. unat (offset + size') \<le> b \<and> b < unat offset + unat size' \<longrightarrow> coveredByte bindings b"
    using E by auto
  from walkBack_covers [OF wb j refl this]
  have inv: "\<forall>b. unat e' \<le> b \<and> b < unat offset + unat size' \<longrightarrow> coveredByte bindings b" by simp
  show ?thesis
  proof (cases "unat e' \<le> b")
    case True
    with inv b show ?thesis by blast
  next
    case False
    then have lt: "b < unat e'" by simp
    with b(1) have "\<not> e' \<le> offset" by (simp add: word_le_nat_alt)
    with fin have k0: "?ks ! 0 \<le> offset" "e' \<le> ?ks ! 0 + Size (GetBind bindings (?ks ! 0))" by auto
    from j have "0 < length ?ks" by (cases "Keys bindings") auto
    then have "?ks ! 0 \<in> set ?ks" by (rule nth_mem)
    moreover from k0(1) b(1) have "unat (?ks ! 0) \<le> b" by (simp add: word_le_nat_alt)
    ultimately show ?thesis using coveredByte_key [OF _ _ k0(2) lt] by blast
  qed
qed

text \<open>
  The two spans \<open>[0,10)\<close> and \<open>[10,20)\<close> cover every byte of \<open>[0,20)\<close>.
\<close>

lemma adjacent_spans_cover:
  "b < 20 \<Longrightarrow> coveredByte [bindAt 0 10, bindAt 10 10] b"
  by (auto simp add: coveredByte_def Keys_def bindAt_def GetBind_def)

text \<open>
  C1.  With exactly the spans \<open>[0,10)\<close> and \<open>[10,20)\<close> the claim expects
  \<open>IsFullyBound 0 20\<close> to be true, and with \<open>[0,5)\<close> and \<open>[10,20)\<close> to be false.
  The function as written returns false in both cases: no resource offset is greater
  than 20, so \<open>oneAfterReqRange\<close> stays \<open>-1\<close> and the first guard returns false
  before any span is looked at.
\<close>

theorem IsFullyBound_adjacent_spans_rejected:
  "\<not> IsFullyBound 0 20 [bindAt 0 10, bindAt 10 10] \<and>
   \<not> IsFullyBound 0 20 [bindAt 0 5, bindAt 10 10]"
  by (simp add: IsFullyBound_def Keys_def bindAt_def GetBind_def)

text \<open>
  C3, as stated, at a range whose end wraps around \<open>2^64\<close>: offset \<open>2^64 - 10\<close> and
  size 20 give the 64-bit end 10; the guard \<open>end \<le> offset\<close> then answers true although
  byte \<open>2^64 - 10\<close> of the range lies in no binding span.
\<close>

theorem IsFullyBound_wraparound_counterexample:
  "IsFullyBound (- 10) 20 [bindAt 0 1, bindAt 11 1] \<and>
   unat (- 10 :: u64) \<le> 18446744073709551606 \<and>
   18446744073709551606 < unat (- 10 :: u64) + unat (20 :: u64) \<and>
   \<not> coveredByte [bindAt 0 1, bindAt 11 1] 18446744073709551606"
  by (simp add: IsFullyBound_def coveredByte_def Keys_def bindAt_def GetBind_def)

text \<open>
  C3, amended.  \<open>IsFullyBound\<close> returns false when the binding map is empty, when no
  binding's resource offset is strictly greater than the 64-bit sum \<open>offset + size\<close>,
  and, provided \<open>offset + size\<close> does not exceed \<open>2^64 - 1\<close>, when some byte of
  \<open>[offset, offset + size)\<close> lies in no binding span.
\<close>

theorem IsFullyBound_false_cases:
  "(bindings = [] \<longrightarrow> \<not> IsFullyBound offset size' bindings) \<and>
   ((\<forall>k \<in> set (Keys bindings). \<not> offset + size' < k) \<longrightarrow> \<not> IsFullyBound offset size' bindings) \<and>
   (unat offset + unat size' < 2 ^ 64 \<and> unat offset \<le> b \<and> b < unat offset + unat size' \<and>
      \<not> coveredByte bindings b \<longrightarrow> \<not> IsFullyBound offset size' bindings)"
proof (intro conjI impI)
  assume "bindings = []"
  then show "\<not> IsFullyBound offset size' bindings"
    by (simp add: IsFullyBound_def Keys_def)
next
  assume "\<forall>k \<in> set (Keys bindings). \<not> offset + size' < k"
  then have "firstBeyond (Keys bindings) (offset + size') 0 = - 1"
    by (rule firstBeyond_none)
  then show "\<not> IsFullyBound offset size' bindings"
    by (simp add: IsFullyBound_def)
next
  assume "unat offset + unat size' < 2 ^ 64 \<and> unat offset \<le> b \<and> b < unat offset + unat size' \<and>
      \<not> coveredByte bindings b"
  then show "\<not> IsFullyBound offset size' bindings"
    using IsFullyBound_covers [of offset size' bindings b] by blast
qed

theorem IsFullyBound_false_cases_witness:
  "\<not> IsFullyBound 0 20 [] \<and>
   list_all (\<lambda>k. \<not> (0 :: u64) + 20 < k) (Keys [bindAt 0 20, bindAt 20 4]) \<and>
   \<not> IsFullyBound 0 20 [bindAt 0 20, bindAt 20 4] \<and>
   unat (0 :: u64) + unat (20 :: u64) < 2 ^ 64 \<and> unat (0 :: u64) \<le> 7 \<and>
   7 < unat (0 :: u64) + unat (20 :: u64) \<and>
   \<not> coveredByte [bindAt 0 5, bindAt 10 10, bindAt 30 1] 7 \<and>
   \<not> IsFullyBound 0 20 [bindAt 0 5, bindAt 10 10, bindAt 30 1]"
  using IsFullyBound_false_cases [of "[]" 0 20 7]
        IsFullyBound_false_cases [of "[bindAt 0 20, bindAt 20 4]" 0 20 7]
        IsFullyBound_false_cases [of "[bindAt 0 5, bindAt 10 10, bindAt 30 1]" 0 20 7]
  by (simp add: coveredByte_def Keys_def bindAt_def GetBind_def)

section \<open>Properties of the pipeline resolver\<close>

lemma rangeMap_set [simp]: "set (rangeMap ord n m) = set m"
  by (simp add: rangeMap_def)

lemma rangeMap_distinct: "distinct (map fst m) \<Longrightarrow> distinct (map fst (rangeMap ord n m))"
proof -
  assume d: "distinct (map fst m)"
  have "mset (map fst (rangeMap ord n m)) = mset (map fst m)"
    by (simp add: rangeMap_def)
  then show ?thesis using d by (metis mset_eq_imp_distinct_iff)
qed

lemma rangeMap_Nil [simp]: "rangeMap ord n m = [] \<longleftrightarrow> m = []"
  by (metis rangeMap_set set_empty)

text \<open>
  Every order in which the entries of a map can be visited is the one given by some
  priority: the model of \<open>range\<close> leaves no iteration order out.
\<close>

lemma filter_eq_single:
  assumes "distinct xs" and "k \<in> set xs"
  shows "filter (\<lambda>x. x = k) xs = [k]"
  using assms by (induction xs) (auto simp: filter_empty_conv)

lemma position_nth:
  assumes d: "distinct (map fst es)" and i: "i < length es"
  shows "length (takeWhile (\<lambda>e. fst e \<noteq> fst (es ! i)) es) = i"
proof -
  have "takeWhile (\<lambda>e. fst e \<noteq> fst (es ! i)) es = take i es"
  proof (rule takeWhile_eq_take_P_nth)
    fix j assume j: "j < i" "j < length es"
    with d i have "map fst es ! j \<noteq> map fst es ! i"
      by (simp add: nth_eq_iff_index_eq del: nth_map)
    with i j show "fst (es ! j) \<noteq> fst (es ! i)" by simp
  next
    show "\<not> fst (es ! i) \<noteq> fst (es ! i)" by simp
  qed
  with i show ?thesis by simp
qed

lemma rangeMap_any_order:
  assumes d: "distinct (map fst m)" and p: "mset es = mset m"
  shows "\<exists>ord. rangeMap ord n m = es"
proof -
  define pos where "pos k = length (takeWhile (\<lambda>e. fst e \<noteq> k) es)" for k
  let ?f = "\<lambda>e. pos (fst e)"
  from p have "mset (map fst es) = mset (map fst m)" by simp
  with d have de: "distinct (map fst es)" by (metis mset_eq_imp_distinct_iff)
  then have dl: "distinct es" by (rule distinct_map [THEN iffD1, THEN conjunct1])
  from d have dm: "distinct m" by (rule distinct_map [THEN iffD1, THEN conjunct1])
  from p have se: "set es = set m" by (rule mset_eq_setD)
  have pos: "\<And>i. i < length es \<Longrightarrow> ?f (es ! i) = i"
    unfolding pos_def by (rule position_nth [OF de])
  have inj: "\<And>x y. x \<in> set es \<Longrightarrow> y \<in> set es \<Longrightarrow> ?f x = ?f y \<longleftrightarrow> x = y"
    by (metis in_set_conv_nth pos)
  have "map ?f es = [0 ..< length es]"
    by (rule nth_equalityI) (simp_all add: pos)
  then have srt: "sorted (map ?f es)" by simp
  have "sort_key ?f m = es"
  proof (rule properties_for_sort_key [OF p _ srt])
    fix k assume k: "k \<in> set es"
    have "filter (\<lambda>x. ?f k = ?f x) es = filter (\<lambda>x. x = k) es"
      by (rule filter_cong) (use inj k in auto)
    moreover have "filter (\<lambda>x. ?f k = ?f x) m = filter (\<lambda>x. x = k) m"
      by (rule filter_cong) (use inj k se in auto)
    ultimately show "filter (\<lambda>x. ?f k = ?f x) es = filter (\<lambda>x. ?f k = ?f x) m"
      using filter_eq_single [OF dl k] filter_eq_single [OF dm] k se by simp
  qed
  then have "rangeMap (\<lambda>_. pos) n m = es" by (simp add: rangeMap_def)
  then show ?thesis by blast
qed

lemma set_AList_delete: "set (AList.delete k al) = {e \<in> set al. fst e \<noteq> k}"
  by (auto simp: AList.delete_eq)

lemma resolvePass_numHandled_mono: "numHandled st \<le> numHandled (resolvePass es st)"
proof (induction es arbitrary: st)
  case Nil
  show ?case by simp
next
  case (Cons e es)
  obtain k v where e: "e = (k, v)" by (cases e)
  show ?case
    using Cons.IH [of "st\<lparr>pipelines := pipelines st @ [k],
                    handledPipelines := insert k (handledPipelines st),
                    unhandledPipelines := AList.delete k (unhandledPipelines st),
                    numHandled := Suc (numHandled st)\<rparr>"] Cons.IH [of st]
    by (auto simp: e Let_def)
qed

lemma resolvePass_blocked:
  assumes "blocked B es (handledPipelines st)"
  shows "handledPipelines (resolvePass es st) \<subseteq> handledPipelines st \<union> (fst ` set es - B)
       \<and> (\<forall>e \<in> set (unhandledPipelines st). fst e \<in> B \<longrightarrow> e \<in> set (unhandledPipelines (resolvePass es st)))
       \<and> set (unhandledPipelines (resolvePass es st)) \<subseteq> set (unhandledPipelines st)"
  using assms
proof (induction es arbitrary: st)
  case Nil
  show ?case by simp
next
  case (Cons e es)
  obtain k v where e: "e = (k, v)" by (cases e)
  let ?st' = "st\<lparr>pipelines := pipelines st @ [k],
                    handledPipelines := insert k (handledPipelines st),
                    unhandledPipelines := AList.delete k (unhandledPipelines st),
                    numHandled := Suc (numHandled st)\<rparr>"
  show ?case
  proof (cases "v = 0 \<or> v \<in> handledPipelines st")
    case False
    then have eq: "resolvePass (e # es) st = resolvePass es st" by (auto simp: e Let_def)
    from Cons.prems have "blocked B es (handledPipelines st)"
      unfolding blocked_def by auto
    from Cons.IH [OF this] show ?thesis unfolding eq by auto
  next
    case True
    then have eq: "resolvePass (e # es) st = resolvePass es ?st'" by (auto simp: e Let_def)
    from True Cons.prems have kB: "k \<notin> B" unfolding blocked_def e by auto
    have "blocked B es (handledPipelines ?st')"
      unfolding blocked_def
    proof (clarify)
      fix k' v' assume m: "(k', v') \<in> set es" and b: "k' \<in> B"
      from Cons.prems m b have 1: "v' \<noteq> 0" "v' \<notin> handledPipelines st" "v' \<in> fst ` set (e # es) \<longrightarrow> v' \<in> B"
        unfolding blocked_def by auto
      from 1(3) kB have "v' \<noteq> k" by (auto simp: e)
      with 1 show "v' \<noteq> 0 \<and> v' \<notin> handledPipelines ?st' \<and> (v' \<in> fst ` set es \<longrightarrow> v' \<in> B)"
        by auto
    qed
    from Cons.IH [OF this]
    have ih: "handledPipelines (resolvePass es ?st') \<subseteq> insert k (handledPipelines st) \<union> (fst ` set es - B)"
      "\<forall>e \<in> set (AList.delete k (unhandledPipelines st)). fst e \<in> B \<longrightarrow> e \<in> set (unhandledPipelines (resolvePass es ?st'))"
      "set (unhandledPipelines (resolvePass es ?st')) \<subseteq> set (AList.delete k (unhandledPipelines st))"
      by simp_all
    from ih(1) kB have "handledPipelines (resolvePass es ?st') \<subseteq> handledPipelines st \<union> (fst ` set (e # es) - B)"
      by (auto simp: e)
    moreover from ih(2) kB have "\<forall>e \<in> set (unhandledPipelines st). fst e \<in> B \<longrightarrow> e \<in> set (unhandledPipelines (resolvePass es ?st'))"
      unfolding set_AList_delete by blast
    moreover from ih(3) have "set (unhandledPipelines (resolvePass es ?st')) \<subseteq> set (unhandledPipelines st)"
      unfolding set_AList_delete by blast
    ultimately show ?thesis unfolding eq by blast
  qed
qed

lemma blocked_pass:
  assumes bl: "blocked B (unhandledPipelines st) (handledPipelines st)"
  shows "blocked B (unhandledPipelines (resolvePass (rangeMap ord n (unhandledPipelines st)) st))
                   (handledPipelines (resolvePass (rangeMap ord n (unhandledPipelines st)) st))"
proof -
  let ?es = "rangeMap ord n (unhandledPipelines st)"
  let ?st' = "resolvePass ?es st"
  from bl have "blocked B ?es (handledPipelines st)" unfolding blocked_def by simp
  from resolvePass_blocked [OF this]
  have h: "handledPipelines ?st' \<subseteq> handledPipelines st \<union> (fst ` set (unhandledPipelines st) - B)"
    and sub: "set (unhandledPipelines ?st') \<subseteq> set (unhandledPipelines st)"
    by simp_all
  show ?thesis
    unfolding blocked_def
  proof clarify
    fix k v assume m: "(k, v) \<in> set (unhandledPipelines ?st')" and b: "k \<in> B"
    from m sub have m': "(k, v) \<in> set (unhandledPipelines st)" by blast
    with bl b have 1: "v \<noteq> 0" "v \<notin> handledPipelines st" "v \<in> fst ` set (unhandledPipelines st) \<longrightarrow> v \<in> B"
      unfolding blocked_def by auto
    from 1(2,3) h have "v \<notin> handledPipelines ?st'" by blast
    moreover from 1(3) sub have "v \<in> fst ` set (unhandledPipelines ?st') \<longrightarrow> v \<in> B" by blast
    ultimately show "v \<noteq> 0 \<and> v \<notin> handledPipelines ?st' \<and> (v \<in> fst ` set (unhandledPipelines ?st') \<longrightarrow> v \<in> B)"
      using 1(1) by blast
  qed
qed

lemma blocked_stays:
  assumes bl: "blocked B (unhandledPipelines st) (handledPipelines st)"
    and e: "e \<in> set (unhandledPipelines st)" "fst e \<in> B"
  shows "e \<in> set (unhandledPipelines (resolvePass (rangeMap ord n (unhandledPipelines st)) st))"
proof -
  from bl have "blocked B (rangeMap ord n (unhandledPipelines st)) (handledPipelines st)"
    unfolding blocked_def by simp
  from resolvePass_blocked [OF this] e show ?thesis by blast
qed

lemma jammed_pass:
  assumes "jammed B st"
  shows "jammed B (resolvePass (rangeMap ord n (unhandledPipelines st)) st)"
proof -
  let ?st' = "resolvePass (rangeMap ord n (unhandledPipelines st)) st"
  from assms have n: "numHandled st \<noteq> 0"
    and bl: "blocked B (unhandledPipelines st) (handledPipelines st)"
    unfolding jammed_def by simp_all
  from assms obtain e where e: "e \<in> set (unhandledPipelines st)" "fst e \<in> B"
    unfolding jammed_def by blast
  from n resolvePass_numHandled_mono [of st "rangeMap ord n (unhandledPipelines st)"]
  have "numHandled ?st' \<noteq> 0" by simp
  moreover from blocked_stays [OF bl e] e(2) have "\<exists>e \<in> set (unhandledPipelines ?st'). fst e \<in> B" by blast
  ultimately show ?thesis using blocked_pass [OF bl] unfolding jammed_def by blast
qed

lemma resolveLoop_Some_not_jammed:
  assumes "resolveLoop ord n st = Some ps"
  shows "\<not> jammed B st"
proof (rule resolveLoop.raw_induct [where P = "\<lambda>_ _ st _. \<not> jammed B st", OF _ assms])
  fix loop :: "rangeOrder \<Rightarrow> nat \<Rightarrow> resolver \<Rightarrow> VkPipeline list option"
    and ord n st ps
  assume IH: "\<And>ord n st ps. loop ord n st = Some ps \<Longrightarrow> \<not> jammed B st"
    and eq: "(if unhandledPipelines st = [] then Some (pipelines st)
      else if numHandled (resolvePass (rangeMap ord n (unhandledPipelines st)) st) = 0
      then Some (pipelines (resolvePass (rangeMap ord n (unhandledPipelines st)) st) @
                 map fst (rangeMap ord (Suc n)
                   (unhandledPipelines (resolvePass (rangeMap ord n (unhandledPipelines st)) st))))
      else loop ord (Suc n) (resolvePass (rangeMap ord n (unhandledPipelines st)) st)) = Some ps"
  show "\<not> jammed B st"
  proof
    assume j: "jammed B st"
    let ?st' = "resolvePass (rangeMap ord n (unhandledPipelines st)) st"
    from jammed_pass [OF j] have j': "jammed B ?st'" .
    from j have ne: "unhandledPipelines st \<noteq> []" unfolding jammed_def by auto
    from j' have n: "numHandled ?st' \<noteq> 0" unfolding jammed_def by simp
    from eq ne n have "loop ord (Suc n) ?st' = Some ps" by simp
    from IH [OF this] j' show False by simp
  qed
qed

lemma jammed_diverges: "jammed B st \<Longrightarrow> resolveLoop ord n st = None"
  using resolveLoop_Some_not_jammed [of ord n st _ B] by (cases "resolveLoop ord n st") auto

lemma resolvePass_root:
  "(k, 0) \<in> set es \<Longrightarrow> numHandled (resolvePass es st) \<noteq> 0"
proof (induction es arbitrary: st)
  case Nil
  then show ?case by simp
next
  case (Cons e es)
  obtain k' v where e: "e = (k', v)" by (cases e)
  let ?st' = "st\<lparr>pipelines := pipelines st @ [k'],
                    handledPipelines := insert k' (handledPipelines st),
                    unhandledPipelines := AList.delete k' (unhandledPipelines st),
                    numHandled := Suc (numHandled st)\<rparr>"
  show ?case
  proof (cases "v = 0 \<or> v \<in> handledPipelines st")
    case True
    then have "resolvePass (e # es) st = resolvePass es ?st'" by (auto simp: e Let_def)
    moreover have "numHandled ?st' \<le> numHandled (resolvePass es ?st')"
      by (rule resolvePass_numHandled_mono)
    ultimately show ?thesis by simp
  next
    case False
    with Cons.prems have "(k, 0) \<in> set es" by (auto simp: e)
    from Cons.IH [OF this] False show ?thesis by (auto simp: e Let_def)
  qed
qed

lemma GetPipelinesInOrder_diverges:
  assumes root: "(a, 0) \<in> set (pipelineTable s c)"
    and e: "e \<in> set (pipelineTable s c)" "fst e \<in> B"
    and bl: "blocked B (pipelineTable s c) {}"
  shows "GetPipelinesInOrder ord s c = None"
proof -
  let ?st = "\<lparr>pipelines = [], unhandledPipelines = pipelineTable s c,
        handledPipelines = {}, numHandled = 0\<rparr>"
  let ?st' = "resolvePass (rangeMap ord 0 (unhandledPipelines ?st)) ?st"
  from root have n: "numHandled ?st' \<noteq> 0" by (intro resolvePass_root [of a]) simp
  have bl0: "blocked B (unhandledPipelines ?st) (handledPipelines ?st)" using bl by simp
  from blocked_stays [OF bl0, of e] e have "\<exists>e \<in> set (unhandledPipelines ?st'). fst e \<in> B" by auto
  with n blocked_pass [OF bl0] have "jammed B ?st'" unfolding jammed_def by blast
  then have "resolveLoop ord (Suc 0) ?st' = None" by (rule jammed_diverges)
  moreover from e(1) have "unhandledPipelines ?st \<noteq> []" by auto
  ultimately have "resolveLoop ord 0 ?st = None"
    using n by (subst resolveLoop.simps) simp
  then show ?thesis by (simp add: GetPipelinesInOrder_def)
qed

text \<open>
  C2.  The claim says that \<open>GetPipelinesInOrder\<close> ends on every table, cycles and bases
  outside the table mixed with resolvable pipelines included.  On the table 1 (no base),
  2 (base 3), 3 (base 2), and on the table 1 (no base), 2 (base 7, not in the table), the
  first pass resolves pipeline 1 and sets \<open>numHandled\<close> to 1; every later pass resolves
  nothing, \<open>numHandled\<close> is still 1, the test \<open>numHandled == 0\<close> fails and the outer loop
  never ends, whatever the iteration order of the map.
\<close>

theorem GetPipelinesInOrder_stalls_after_progress:
  "GetPipelinesInOrder ord (pipelineState [pipelineObj 1 0, pipelineObj 2 3, pipelineObj 3 2] []) True = None \<and>
   GetPipelinesInOrder ord (pipelineState [pipelineObj 1 0, pipelineObj 2 7] []) True = None"
proof
  have t: "pipelineTable (pipelineState [pipelineObj 1 0, pipelineObj 2 3, pipelineObj 3 2] []) True
           = [(1, 0), (2, 3), (3, 2)]"
    by (simp add: pipelineTable_def pipelineState_def pipelineObj_def emptyState_def Values_def Keys_def
        List.map_filter_simps)
  show "GetPipelinesInOrder ord (pipelineState [pipelineObj 1 0, pipelineObj 2 3, pipelineObj 3 2] []) True = None"
    by (rule GetPipelinesInOrder_diverges [where a = 1 and e = "(2, 3)" and B = "{2, 3}"])
       (simp_all add: t blocked_def)
next
  have t: "pipelineTable (pipelineState [pipelineObj 1 0, pipelineObj 2 7] []) True = [(1, 0), (2, 7)]"
    by (simp add: pipelineTable_def pipelineState_def pipelineObj_def emptyState_def Values_def Keys_def
        List.map_filter_simps)
  show "GetPipelinesInOrder ord (pipelineState [pipelineObj 1 0, pipelineObj 2 7] []) True = None"
    by (rule GetPipelinesInOrder_diverges [where a = 1 and e = "(2, 7)" and B = "{2}"])
       (simp_all add: t blocked_def)
qed

lemma precedes_append:
  assumes "precedes b k ps"
  shows "precedes b k (ps @ qs)"
proof -
  from assms obtain i j where ij: "i < j" "j < length ps" "ps ! i = b" "ps ! j = k"
    unfolding precedes_def by blast
  then have "i < j \<and> j < length (ps @ qs) \<and> (ps @ qs) ! i = b \<and> (ps @ qs) ! j = k"
    by (simp add: nth_append)
  then show ?thesis unfolding precedes_def by blast
qed

lemma precedes_snoc: "b \<in> set ps \<Longrightarrow> precedes b k (ps @ [k])"
proof -
  assume "b \<in> set ps"
  then obtain i where i: "i < length ps" "ps ! i = b" by (auto simp: in_set_conv_nth)
  then have "i < length ps \<and> length ps < length (ps @ [k]) \<and> (ps @ [k]) ! i = b \<and> (ps @ [k]) ! length ps = k"
    by (simp add: nth_append)
  then show ?thesis unfolding precedes_def by blast
qed

lemma length_AList_delete:
  assumes "k \<in> fst ` set al"
  shows "length (AList.delete k al) < length al"
proof -
  from assms obtain v where "(k, v) \<in> set al" by auto
  then show ?thesis
    unfolding AList.delete_eq by (rule length_filter_less) simp
qed

lemma resolverInv_step:
  assumes d: "distinct (map fst tbl)"
    and inv: "resolverInv tbl st"
    and m: "(k, v) \<in> set (unhandledPipelines st)"
    and rdy: "v = 0 \<or> v \<in> handledPipelines st"
  shows "resolverInv tbl (st\<lparr>pipelines := pipelines st @ [k],
                    handledPipelines := insert k (handledPipelines st),
                    unhandledPipelines := AList.delete k (unhandledPipelines st),
                    numHandled := Suc (numHandled st)\<rparr>)"
proof -
  from inv have du: "distinct (map fst (unhandledPipelines st))"
    and sub: "set (unhandledPipelines st) \<subseteq> set tbl"
    and keys: "fst ` set tbl = set (pipelines st) \<union> fst ` set (unhandledPipelines st)"
    and h: "handledPipelines st = set (pipelines st)"
    and hon: "honors tbl (pipelines st)"
    and dp: "distinct (pipelines st)"
    and disj: "set (pipelines st) \<inter> fst ` set (unhandledPipelines st) = {}"
    unfolding resolverInv_def by simp_all
  from m have ku: "k \<in> fst ` set (unhandledPipelines st)" by force
  with disj have kp: "k \<notin> set (pipelines st)" by blast
  from m sub have mt: "(k, v) \<in> set tbl" by blast
  have 1: "distinct (map fst (AList.delete k (unhandledPipelines st)))"
    using du by (rule distinct_delete)
  have 2: "set (AList.delete k (unhandledPipelines st)) \<subseteq> set tbl"
    using sub unfolding set_AList_delete by blast
  have fd: "fst ` set (AList.delete k (unhandledPipelines st)) = fst ` set (unhandledPipelines st) - {k}"
    unfolding set_AList_delete by force
  have 3: "fst ` set tbl = set (pipelines st @ [k]) \<union> fst ` set (AList.delete k (unhandledPipelines st))"
    using keys ku unfolding fd by auto
  have 5: "honors tbl (pipelines st @ [k])"
    unfolding honors_def
  proof clarify
    fix k' b assume e: "(k', b) \<in> set tbl" and b: "b \<noteq> 0" and k': "k' \<in> set (pipelines st @ [k])"
    show "precedes b k' (pipelines st @ [k])"
    proof (cases "k' = k")
      case True
      with e mt d have "b = v" by (metis eq_key_imp_eq_value)
      with b rdy h have "b \<in> set (pipelines st)" by simp
      then show ?thesis unfolding True by (rule precedes_snoc)
    next
      case False
      with k' have "k' \<in> set (pipelines st)" by simp
      with hon e b have "precedes b k' (pipelines st)" unfolding honors_def by blast
      then show ?thesis by (rule precedes_append)
    qed
  qed
  have 6: "distinct (pipelines st @ [k])" using dp kp by simp
  have 7: "set (pipelines st @ [k]) \<inter> fst ` set (AList.delete k (unhandledPipelines st)) = {}"
    using disj unfolding fd by auto
  show ?thesis
    unfolding resolverInv_def using 1 2 3 h 5 6 7 by simp
qed

lemma resolvePass_inv:
  assumes d: "distinct (map fst tbl)"
    and inv: "resolverInv tbl st"
    and sub: "set es \<subseteq> set (unhandledPipelines st)"
    and de: "distinct (map fst es)"
  shows "resolverInv tbl (resolvePass es st) \<and>
         length (unhandledPipelines (resolvePass es st)) \<le> length (unhandledPipelines st) \<and>
         ((\<exists>e \<in> set es. snd e = 0 \<or> snd e \<in> handledPipelines st) \<longrightarrow>
            length (unhandledPipelines (resolvePass es st)) < length (unhandledPipelines st) \<and>
            numHandled (resolvePass es st) \<noteq> 0)"
  using inv sub de
proof (induction es arbitrary: st)
  case Nil
  then show ?case by simp
next
  case (Cons e es)
  obtain k v where e: "e = (k, v)" by (cases e)
  let ?st' = "st\<lparr>pipelines := pipelines st @ [k],
                    handledPipelines := insert k (handledPipelines st),
                    unhandledPipelines := AList.delete k (unhandledPipelines st),
                    numHandled := Suc (numHandled st)\<rparr>"
  from Cons.prems(3) have des: "distinct (map fst es)" and kes: "k \<notin> fst ` set es"
    by (auto simp: e)
  show ?case
  proof (cases "v = 0 \<or> v \<in> handledPipelines st")
    case True
    then have eq: "resolvePass (e # es) st = resolvePass es ?st'" by (auto simp: e Let_def)
    from Cons.prems(2) have m: "(k, v) \<in> set (unhandledPipelines st)" by (simp add: e)
    from resolverInv_step [OF d Cons.prems(1) m True] have inv': "resolverInv tbl ?st'" .
    have sub': "set es \<subseteq> set (unhandledPipelines ?st')"
    proof
      fix x assume x: "x \<in> set es"
      with kes have "fst x \<noteq> k" by force
      moreover from x Cons.prems(2) have "x \<in> set (unhandledPipelines st)" by auto
      ultimately show "x \<in> set (unhandledPipelines ?st')" by (simp add: set_AList_delete)
    qed
    from m have "k \<in> fst ` set (unhandledPipelines st)" by force
    then have lt: "length (unhandledPipelines ?st') < length (unhandledPipelines st)"
      by (simp add: length_AList_delete)
    from Cons.IH [OF inv' sub' des]
    have ih: "resolverInv tbl (resolvePass es ?st')"
      "length (unhandledPipelines (resolvePass es ?st')) \<le> length (unhandledPipelines ?st')"
      by simp_all
    have "numHandled ?st' \<le> numHandled (resolvePass es ?st')" by (rule resolvePass_numHandled_mono)
    then have "numHandled (resolvePass es ?st') \<noteq> 0" by simp
    with ih lt show ?thesis unfolding eq by simp
  next
    case False
    then have eq: "resolvePass (e # es) st = resolvePass es st" by (auto simp: e Let_def)
    from Cons.prems(2) have sub': "set es \<subseteq> set (unhandledPipelines st)" by simp
    from Cons.IH [OF Cons.prems(1) sub' des] False show ?thesis unfolding eq by (auto simp: e)
  qed
qed

lemma resolver_ready:
  assumes ac: "acyclic (baseRel tbl)" and cont: "basesContained tbl"
    and inv: "resolverInv tbl st" and ne: "unhandledPipelines st \<noteq> []"
  shows "\<exists>e \<in> set (unhandledPipelines st). snd e = 0 \<or> snd e \<in> handledPipelines st"
proof -
  let ?U = "fst ` set (unhandledPipelines st)"
  have "finite (baseRel tbl)"
    by (rule finite_subset [of _ "set tbl"]) (auto simp: baseRel_def)
  with ac have wf: "wf ((baseRel tbl)\<inverse>)" by (simp add: finite_acyclic_wf_converse)
  from ne obtain x where "x \<in> ?U" by (cases "unhandledPipelines st") auto
  with wf obtain z where z: "z \<in> ?U" and zmin: "\<And>y. (y, z) \<in> (baseRel tbl)\<inverse> \<Longrightarrow> y \<notin> ?U"
    by (rule wfE_min) blast
  from z obtain v where m: "(z, v) \<in> set (unhandledPipelines st)" by auto
  from inv have sub: "set (unhandledPipelines st) \<subseteq> set tbl"
    and keys: "fst ` set tbl = set (pipelines st) \<union> ?U"
    and h: "handledPipelines st = set (pipelines st)"
    unfolding resolverInv_def by simp_all
  have "v = 0 \<or> v \<in> handledPipelines st"
  proof (cases "v = 0")
    case True
    then show ?thesis by simp
  next
    case False
    from m sub have mt: "(z, v) \<in> set tbl" by blast
    with False have "(v, z) \<in> (baseRel tbl)\<inverse>" by (simp add: baseRel_def)
    then have "v \<notin> ?U" by (rule zmin)
    moreover from cont mt False have "v \<in> fst ` set tbl" unfolding basesContained_def by blast
    ultimately show ?thesis using keys h by blast
  qed
  with m show ?thesis by force
qed

lemma resolveLoop_total:
  assumes d: "distinct (map fst tbl)" and ac: "acyclic (baseRel tbl)" and cont: "basesContained tbl"
  shows "resolverInv tbl st \<Longrightarrow>
         \<exists>ps. resolveLoop ord n st = Some ps \<and> honors tbl ps \<and> distinct ps \<and> set ps = fst ` set tbl"
proof (induction "length (unhandledPipelines st)" arbitrary: st n rule: less_induct)
  case less
  show ?case
  proof (cases "unhandledPipelines st = []")
    case True
    then have "resolveLoop ord n st = Some (pipelines st)"
      by (subst resolveLoop.simps) simp
    moreover from less.prems True have "honors tbl (pipelines st)" "distinct (pipelines st)"
      "set (pipelines st) = fst ` set tbl"
      unfolding resolverInv_def by simp_all
    ultimately show ?thesis by blast
  next
    case False
    let ?es = "rangeMap ord n (unhandledPipelines st)"
    let ?st' = "resolvePass ?es st"
    from less.prems have du: "distinct (map fst (unhandledPipelines st))"
      unfolding resolverInv_def by simp
    from resolver_ready [OF ac cont less.prems False]
    have rdy: "\<exists>e \<in> set ?es. snd e = 0 \<or> snd e \<in> handledPipelines st" by simp
    have "set ?es \<subseteq> set (unhandledPipelines st)" by simp
    from resolvePass_inv [OF d less.prems this rangeMap_distinct [OF du]] rdy
    have inv': "resolverInv tbl ?st'"
      and lt: "length (unhandledPipelines ?st') < length (unhandledPipelines st)"
      and n: "numHandled ?st' \<noteq> 0"
      by blast+
    from less.hyps [OF lt inv'] obtain ps where
      ps: "resolveLoop ord (Suc n) ?st' = Some ps" "honors tbl ps" "distinct ps" "set ps = fst ` set tbl"
      by blast
    from False n ps(1) have "resolveLoop ord n st = Some ps"
      by (subst resolveLoop.simps) simp
    with ps show ?thesis by blast
  qed
qed

lemma distinct_fold_update:
  "distinct (map fst m) \<Longrightarrow>
   distinct (map fst (fold (\<lambda>pp m. AList.update (VulkanHandle pp) (BasePipeline pp) m) xs m))"
  by (induction xs arbitrary: m) (simp_all add: distinct_update)

lemma pipelineTable_distinct: "distinct (map fst (pipelineTable s c))"
  unfolding pipelineTable_def by (rule distinct_fold_update) simp





text \<open>
  When no pipeline of the table has base zero the first pass resolves nothing,
  \<open>numHandled\<close> is 0 and the remainder is emitted as it comes: the cycle 7 (base 8),
  8 (base 7) yields both pipelines once.
\<close>

lemma resolvePass_none_ready:
  "\<forall>e \<in> set es. snd e \<noteq> 0 \<and> snd e \<notin> handledPipelines st \<Longrightarrow> resolvePass es st = st"
  by (induction es) (auto simp: Let_def)

lemma GetPipelinesInOrder_no_root:
  assumes "\<forall>e \<in> set (pipelineTable s c). snd e \<noteq> 0"
  shows "GetPipelinesInOrder ord s c = Some (map fst (rangeMap ord (Suc 0) (pipelineTable s c)))"
proof -
  let ?st = "\<lparr>pipelines = [], unhandledPipelines = pipelineTable s c,
        handledPipelines = {}, numHandled = 0\<rparr>"
  from assms have "resolvePass (rangeMap ord 0 (unhandledPipelines ?st)) ?st = ?st"
    by (intro resolvePass_none_ready) simp
  then show ?thesis
    unfolding GetPipelinesInOrder_def by (subst resolveLoop.simps) (simp add: rangeMap_def)
qed

lemma GetPipelinesInOrder_pure_cycle:
  "\<exists>ps. GetPipelinesInOrder ord (pipelineState [pipelineObj 7 8, pipelineObj 8 7] []) True = Some ps
        \<and> distinct ps \<and> set ps = {7, 8}"
proof -
  have t: "pipelineTable (pipelineState [pipelineObj 7 8, pipelineObj 8 7] []) True = [(7, 8), (8, 7)]"
    by (simp add: pipelineTable_def pipelineState_def pipelineObj_def emptyState_def Values_def
        Keys_def List.map_filter_simps)
  have "GetPipelinesInOrder ord (pipelineState [pipelineObj 7 8, pipelineObj 8 7] []) True
          = Some (map fst (rangeMap ord (Suc 0) [(7, 8), (8, 7 :: u64)]))"
    using GetPipelinesInOrder_no_root [of "pipelineState [pipelineObj 7 8, pipelineObj 8 7] []" True ord]
    by (simp add: t)
  moreover have "distinct (map fst (rangeMap ord (Suc 0) [(7, 8), (8, 7 :: u64)]))"
    by (rule rangeMap_distinct) simp
  moreover have "set (map fst (rangeMap ord (Suc 0) [(7, 8), (8, 7 :: u64)])) = {7, 8}"
    by simp
  ultimately show ?thesis by blast
qed

section \<open>Properties of the state builder\<close>

lemma fold_AddRead:
  "fold (\<lambda>r c. AddRead (Data r) c) xs c = c\<lparr>readObservations := readObservations c @ map Data xs\<rparr>"
  by (induction xs arbitrary: c) (simp_all add: AddRead_def)

lemma fold_AddWrite:
  "fold (\<lambda>w c. AddWrite (Data w) c) xs c = c\<lparr>writeObservations := writeObservations c @ map Data xs\<rparr>"
  by (induction xs arbitrary: c) (simp_all add: AddWrite_def)

lemma observed_eq:
  "observed sb cmd =
     cmd\<lparr>readObservations := readObservations cmd @ map Data (readMemories sb),
         writeObservations := writeObservations cmd @ map Data (writeMemories sb)\<rparr>"
  by (simp add: observed_def fold_AddRead fold_AddWrite)

lemma fold_Free:
  "fold Free xs ns =
     ns\<lparr>liveAllocs := filter (\<lambda>b. allocSerial b \<notin> allocSerial ` set xs) (liveAllocs ns),
        freedSerials := freedSerials ns @ map allocSerial xs\<rparr>"
proof (induction xs arbitrary: ns)
  case Nil
  show ?case by simp
next
  case (Cons a xs)
  have fl: "filter (\<lambda>b. allocSerial b \<notin> allocSerial ` set xs)
          (filter (\<lambda>b. allocSerial b \<noteq> allocSerial a) (liveAllocs ns))
        = filter (\<lambda>b. allocSerial b \<notin> allocSerial ` set (a # xs)) (liveAllocs ns)"
    by (induction "liveAllocs ns") auto
  have fa: "Free a ns = ns\<lparr>liveAllocs := filter (\<lambda>b. allocSerial b \<noteq> allocSerial a) (liveAllocs ns),
                  freedSerials := freedSerials ns @ [allocSerial a]\<rparr>"
    by (rule Free_def)
  have "fold Free (a # xs) ns = fold Free xs (Free a ns)" by simp
  also have "\<dots> = (Free a ns)\<lparr>liveAllocs :=
                 filter (\<lambda>b. allocSerial b \<notin> allocSerial ` set xs) (liveAllocs (Free a ns)),
               freedSerials := freedSerials (Free a ns) @ map allocSerial xs\<rparr>"
    by (rule Cons.IH)
  also have "\<dots> = ns\<lparr>liveAllocs := filter (\<lambda>b. allocSerial b \<notin> allocSerial ` set (a # xs)) (liveAllocs ns),
        freedSerials := freedSerials ns @ map allocSerial (a # xs)\<rparr>"
    unfolding fa using fl by simp
  finally show ?case .
qed

lemma write'_fields:
  "cmds (write' X cmd sb) = cmds sb @ [observed sb cmd]"
  "readMemories (write' X cmd sb) = []"
  "writeMemories (write' X cmd sb) = []"
  "memoryIntervals (write' X cmd sb) = memoryIntervals sb"
  "sState (write' X cmd sb) = sState sb"
  "imgPrimer (write' X cmd sb) = imgPrimer sb"
  "logs (write' X cmd sb) = logs sb @
     [case fst (mutate X (observed sb cmd) (apiState (newState sb))) of
        Some e \<Rightarrow> Warning (length (cmds sb)) (observed sb cmd) e
      | None \<Rightarrow> Debug (length (cmds sb)) (observed sb cmd)]"
  by (simp_all add: write'_def Let_def split: prod.splits)

lemma write'_newState:
  "liveAllocs (newState (write' X cmd sb)) =
     filter (\<lambda>b. allocSerial b \<notin> allocSerial ` set (readMemories sb @ writeMemories sb))
       (liveAllocs (newState sb))"
  "freedSerials (newState (write' X cmd sb)) =
     freedSerials (newState sb) @ map allocSerial (readMemories sb @ writeMemories sb)"
  "nextSerial (newState (write' X cmd sb)) = nextSerial (newState sb)"
  by (auto simp add: write'_def Let_def fold_Free split: prod.splits intro: filter_cong)

text \<open>
  C8.  When the mutate step of a command returns an error, \<open>write\<close> still appends the
  command (with the pending observations) to the output and adds one warning to the log;
  the pending allocations are freed and the lists cleared as after a successful mutate
  step.  \<open>write\<close> has no failing branch, so the rebuild goes on.
\<close>

theorem write_appends_on_mutate_error:
  assumes "fst (mutate X (observed sb cmd) (apiState (newState sb))) = Some err"
  shows "cmds (write' X cmd sb) = cmds sb @ [observed sb cmd] \<and>
         logs (write' X cmd sb) = logs sb @ [Warning (length (cmds sb)) (observed sb cmd) err] \<and>
         readMemories (write' X cmd sb) = [] \<and> writeMemories (write' X cmd sb) = [] \<and>
         memoryIntervals (write' X cmd sb) = memoryIntervals sb \<and>
         freedSerials (newState (write' X cmd sb))
           = freedSerials (newState sb) @ map allocSerial (readMemories sb @ writeMemories sb)"
  using assms by (simp add: write'_fields write'_newState)

theorem write_appends_on_mutate_error_witness:
  "fst (mutate failingExtern
          (observed (newBuilder failingExtern deviceState) (newCmd (VkUnmapMemory 2 7)))
          (apiState (newState (newBuilder failingExtern deviceState)))) = Some ''invalid handle'' \<and>
   cmds (write' failingExtern (newCmd (VkUnmapMemory 2 7)) (newBuilder failingExtern deviceState))
     = [newCmd (VkUnmapMemory 2 7)] \<and>
   logs (write' failingExtern (newCmd (VkUnmapMemory 2 7)) (newBuilder failingExtern deviceState))
     = [Warning 0 (newCmd (VkUnmapMemory 2 7)) ''invalid handle'']"
  using write_appends_on_mutate_error
          [of failingExtern "newBuilder failingExtern deviceState" "newCmd (VkUnmapMemory 2 7)"
              "''invalid handle''"]
  by (simp add: failingExtern_def plainExtern_def newBuilder_def observed_eq newCmd_def)

text \<open>
  C10.  For an image whose \<open>IsSwapchainImage\<close> flag is set, \<open>createImage\<close> returns the
  builder as it got it: no command, no allocation, no priming, the command sequence and
  the memory interval set as before.
\<close>

theorem createImage_swapchain_image_untouched:
  assumes "IsSwapchainImage img"
  shows "createImage X ch img sb = Some sb"
  using assms by (simp add: createImage_def)

theorem createImage_swapchain_image_untouched_witness:
  "IsSwapchainImage \<lparr>VulkanHandle = 5, IsSwapchainImage = True, ImageAttributes = 5 :: u64\<rparr> \<and>
   createImage tracingExtern () \<lparr>VulkanHandle = 5, IsSwapchainImage = True, ImageAttributes = 5\<rparr>
     (newBuilder tracingExtern smallSnapshot) = Some (newBuilder tracingExtern smallSnapshot) \<and>
   map_option cmds
     (createImage tracingExtern () \<lparr>VulkanHandle = 6, IsSwapchainImage = False, ImageAttributes = 6\<rparr>
        (newBuilder tracingExtern smallSnapshot)) = Some [newCmd (VkCall ''routine'' [8, 6])]"
  using createImage_swapchain_image_untouched
          [of "\<lparr>VulkanHandle = 5, IsSwapchainImage = True, ImageAttributes = 5 :: u64\<rparr>"
              tracingExtern "()" "newBuilder tracingExtern smallSnapshot"]
  by (simp add: createImage_def tracingExtern_def newBuilder_def)

lemma AllocDataOrPanic_Some:
  assumes "AllocDataOrPanic X v ns = Some (a, ns')"
  shows "stored a = v \<and> allocSerial a = nextSerial ns \<and>
         ns' = ns\<lparr>nextSerial := Suc (nextSerial ns), liveAllocs := liveAllocs ns @ [a]\<rparr>"
  using assms by (auto simp: AllocDataOrPanic_def Let_def split: option.splits)

lemma MustAllocReadData_Some:
  assumes "MustAllocReadData X v sb = Some (a, sb')"
  shows "stored a = v \<and> allocSerial a = nextSerial (newState sb) \<and>
         cmds sb' = cmds sb \<and> readMemories sb' = readMemories sb @ [a] \<and>
         writeMemories sb' = writeMemories sb \<and> sState sb' = sState sb \<and>
         logs sb' = logs sb \<and> imgPrimer sb' = imgPrimer sb \<and>
         newState sb' = (newState sb)\<lparr>nextSerial := Suc (nextSerial (newState sb)),
                                      liveAllocs := liveAllocs (newState sb) @ [a]\<rparr>"
  using assms
  by (auto simp: MustAllocReadData_def split: option.splits dest!: AllocDataOrPanic_Some)

lemma MustAllocWriteData_Some:
  assumes "MustAllocWriteData X v sb = Some (a, sb')"
  shows "stored a = v \<and> allocSerial a = nextSerial (newState sb) \<and>
         cmds sb' = cmds sb \<and> readMemories sb' = readMemories sb \<and>
         writeMemories sb' = writeMemories sb @ [a] \<and> sState sb' = sState sb \<and>
         logs sb' = logs sb \<and> imgPrimer sb' = imgPrimer sb \<and>
         newState sb' = (newState sb)\<lparr>nextSerial := Suc (nextSerial (newState sb)),
                                      liveAllocs := liveAllocs (newState sb) @ [a]\<rparr>"
  using assms
  by (auto simp: MustAllocWriteData_def split: option.splits dest!: AllocDataOrPanic_Some)

lemma GetScratchBufferMemoryIndex_Some:
  assumes "GetScratchBufferMemoryIndex device sb = Some (i, sb')"
  shows "cmds sb' = cmds sb \<and> readMemories sb' = readMemories sb \<and>
         writeMemories sb' = writeMemories sb \<and> sState sb' = sState sb \<and>
         newState sb' = newState sb"
  using assms
  by (auto simp: GetScratchBufferMemoryIndex_def Let_def split: option.splits if_splits)

lemma scratchCreateAndMap_Some:
  assumes "scratchCreateAndMap X device data usages sb = Some ((buffer, deviceMemory, dat, atdata), sb')"
  shows "\<exists>c1 c2 c3 c4 pInfo pMem sz idx.
           cmds sb' = cmds sb @ [c1, c2, c3, c4] \<and>
           (\<exists>p q. call c1 = VkCreateBuffer (VulkanHandle device) p 0 q VK_SUCCESS) \<and>
           call c2 = VkAllocateMemory (VulkanHandle device) pInfo 0 pMem VK_SUCCESS \<and>
           readObservations c2 =
             [(pInfo, sz, VkMemoryAllocateInfo VK_STRUCTURE_TYPE_MEMORY_ALLOCATE_INFO 0
                            ((of_nat (length data) * 2 + 255) AND NOT 255) idx)] \<and>
           call c3 = VkBindBufferMemory (VulkanHandle device) buffer deviceMemory 0 VK_SUCCESS \<and>
           (\<exists>q. call c4 = VkMapMemory (VulkanHandle device) deviceMemory 0 (of_nat (length data)) 0 q
                             VK_SUCCESS) \<and>
           readMemories sb' = [] \<and> writeMemories sb' = []"
  using assms
  unfolding scratchCreateAndMap_def Let_def
  apply (clarsimp simp: bind_eq_Some_conv)
  apply (drule MustAllocReadData_Some MustAllocWriteData_Some GetScratchBufferMemoryIndex_Some AllocDataOrPanic_Some)+
  apply (clarsimp simp: write'_fields observed_eq newCmd_def AddRead_def AddWrite_def Ptr_def Data_def)
  done

lemma scratchFlushAndUnmap_Some:
  assumes "scratchFlushAndUnmap X device data deviceMemory dat atdata sb = Some sb'"
  shows "\<exists>c5 c6. cmds sb' = cmds sb @ [c5, c6] \<and>
           (\<exists>p. call c5 = VkFlushMappedMemoryRanges (VulkanHandle device) 1 p VK_SUCCESS) \<and>
           call c6 = VkUnmapMemory (VulkanHandle device) deviceMemory"
  using assms
  unfolding scratchFlushAndUnmap_def Let_def
  apply (clarsimp simp: bind_eq_Some_conv)
  apply (drule MustAllocReadData_Some)+
  apply (clarsimp simp: write'_fields observed_eq newCmd_def AddRead_def)
  done

lemma AllocDataOrPanic_total:
  "allocatorNeverFails X \<Longrightarrow> \<exists>a ns'. AllocDataOrPanic X v ns = Some (a, ns')"
  by (auto simp: allocatorNeverFails_def AllocDataOrPanic_def Let_def split: option.splits)

lemma MustAllocReadData_total:
  "allocatorNeverFails X \<Longrightarrow> \<exists>a sb'. MustAllocReadData X v sb = Some (a, sb')"
  using AllocDataOrPanic_total [of X v "newState sb"]
  by (auto simp: MustAllocReadData_def)

lemma MustAllocWriteData_total:
  "allocatorNeverFails X \<Longrightarrow> \<exists>a sb'. MustAllocWriteData X v sb = Some (a, sb')"
  using AllocDataOrPanic_total [of X v "newState sb"]
  by (auto simp: MustAllocWriteData_def)

lemma GetScratchBufferMemoryIndex_total:
  "Contains (PhysicalDevices (sState sb)) (PhysicalDevice device) \<Longrightarrow>
   \<exists>i sb'. GetScratchBufferMemoryIndex device sb = Some (i, sb')"
  by (auto simp: GetScratchBufferMemoryIndex_def Contains_def Let_def)

lemma scratchCreateAndMap_total:
  assumes al: "allocatorNeverFails X"
    and pd: "Contains (PhysicalDevices (sState sb)) (PhysicalDevice device)"
  shows "\<exists>r sb'. scratchCreateAndMap X device data usages sb = Some (r, sb')"
proof -
  let ?size = "(of_nat (length data) :: VkDeviceSize)"
  let ?usage = "fold (\<lambda>u f. f OR u) usages VK_BUFFER_USAGE_TRANSFER_SRC_BIT"
  let ?buffer = "newUnusedID X (\<lambda>x. Contains (Buffers (sState sb)) x)"
  let ?memory = "newUnusedID X (\<lambda>x. Contains (DeviceMemories (sState sb)) x)"
  from MustAllocReadData_total [OF al] obtain a1 sb1 where
    1: "MustAllocReadData X (VkBufferCreateInfo VK_STRUCTURE_TYPE_BUFFER_CREATE_INFO 0 0 ?size ?usage
              VK_SHARING_MODE_EXCLUSIVE 0 0) sb = Some (a1, sb1)" by blast
  from MustAllocWriteData_total [OF al] obtain a2 sb2 where
    2: "MustAllocWriteData X (Handle ?buffer) sb1 = Some (a2, sb2)" by blast
  let ?sb3 = "write' X (newCmd (VkCreateBuffer (VulkanHandle device) (Ptr a1) 0 (Ptr a2) VK_SUCCESS)) sb2"
  from 1 2 have "sState ?sb3 = sState sb"
    by (auto simp: write'_fields dest!: MustAllocReadData_Some MustAllocWriteData_Some)
  with pd GetScratchBufferMemoryIndex_total [of ?sb3 device] obtain i sb4 where
    4: "GetScratchBufferMemoryIndex device ?sb3 = Some (i, sb4)" by auto
  from MustAllocReadData_total [OF al] obtain a5 sb5 where
    5: "MustAllocReadData X (VkMemoryAllocateInfo VK_STRUCTURE_TYPE_MEMORY_ALLOCATE_INFO 0
            ((?size * 2 + 255) AND NOT 255) i) sb4 = Some (a5, sb5)" by blast
  from MustAllocWriteData_total [OF al] obtain a6 sb6 where
    6: "MustAllocWriteData X (Handle ?memory) sb5 = Some (a6, sb6)" by blast
  let ?sb7 = "write' X (newCmd (VkAllocateMemory (VulkanHandle device) (Ptr a5) 0 (Ptr a6) VK_SUCCESS)) sb6"
  let ?sb8 = "write' X (newCmd (VkBindBufferMemory (VulkanHandle device) ?buffer ?memory 0 VK_SUCCESS)) ?sb7"
  from AllocDataOrPanic_total [OF al] obtain dat ns9 where
    9: "AllocDataOrPanic X (Bytes data) (newState ?sb8) = Some (dat, ns9)" by blast
  from AllocDataOrPanic_total [OF al] obtain atdata ns10 where
    10: "AllocDataOrPanic X (Pointer (Ptr dat)) ns9 = Some (atdata, ns10)" by blast
  show ?thesis
    unfolding scratchCreateAndMap_def Let_def
    by (simp add: 1 2 4 5 [simplified] 6 9 10)
qed

lemma scratchFlushAndUnmap_total:
  assumes al: "allocatorNeverFails X"
  shows "\<exists>sb'. scratchFlushAndUnmap X device data deviceMemory dat atdata sb = Some sb'"
proof -
  from MustAllocReadData_total [OF al] obtain a sb1 where
    "MustAllocReadData X (VkMappedMemoryRange VK_STRUCTURE_TYPE_MAPPED_MEMORY_RANGE 0 deviceMemory 0
        (of_nat (length data))) sb = Some (a, sb1)" by blast
  then show ?thesis
    unfolding scratchFlushAndUnmap_def Let_def by simp
qed

lemma scratchCreateAndMap_sState:
  assumes "scratchCreateAndMap X device data usages sb = Some (r, sb')"
  shows "sState sb' = sState sb"
  using assms
  unfolding scratchCreateAndMap_def Let_def
  apply (clarsimp simp: bind_eq_Some_conv)
  apply (drule MustAllocReadData_Some MustAllocWriteData_Some GetScratchBufferMemoryIndex_Some AllocDataOrPanic_Some)+
  apply (clarsimp simp: write'_fields)
  done

lemma and_not_255:
  fixes x :: u64
  shows "x AND NOT 255 = push_bit 8 (drop_bit 8 x)"
proof -
  have "(255 :: u64) = mask 8" by (simp add: mask_eq_exp_minus_1)
  then have "x AND NOT 255 = x AND NOT (mask 8)" by simp
  also have "\<dots> = push_bit 8 (drop_bit 8 x)"
    by (rule bit_eqI) (auto simp: bit_simps)
  finally show ?thesis .
qed

lemma round_down_256:
  fixes x :: u64
  shows "unat (x AND NOT 255) = unat x div 256 * 256"
proof -
  have le: "unat x div 256 * 256 \<le> unat x" by simp
  have "unat x < 2 ^ 64" using unsigned_less [of x] by simp
  with le have lt: "unat x div 256 * 256 < 2 ^ 64" by linarith
  have "unat (x AND NOT 255) = unat (push_bit 8 (drop_bit 8 x))" by (simp only: and_not_255)
  also have "\<dots> = take_bit 64 (push_bit 8 (drop_bit 8 (unat x)))"
    by (simp add: unsigned_push_bit_eq unat_drop_bit_eq)
  also have "\<dots> = (unat x div 256 * 256) mod 2 ^ 64"
    by (simp add: take_bit_eq_mod push_bit_eq_mult drop_bit_eq_div)
  also have "\<dots> = unat x div 256 * 256" using lt by simp
  finally show ?thesis .
qed

lemma scratch_allocSize_rounds_up:
  assumes "2 * N + 255 < (2 :: nat) ^ 64"
  shows "unat ((of_nat N * 2 + 255) AND NOT 255 :: u64) = (2 * N + 255) div 256 * 256"
proof -
  from assms have "unat (of_nat N * 2 + 255 :: u64) = 2 * N + 255"
    by (simp add: unat_word_ariths unat_of_nat take_bit_eq_mod)
  then show ?thesis by (simp only: round_down_256)
qed

lemma allocAndFillScratchBuffer_Some:
  assumes "allocAndFillScratchBuffer X device data usages sb = Some (r, sb')"
  shows "\<exists>new. cmds sb' = cmds sb @ new \<and> length new = 6 \<and>
           allocationSizes new = [(of_nat (length data) * 2 + 255) AND NOT 255]"
proof -
  from assms obtain buffer deviceMemory dat atdata sb1 where
    1: "scratchCreateAndMap X device data usages sb = Some ((buffer, deviceMemory, dat, atdata), sb1)"
    and 2: "scratchFlushAndUnmap X device data deviceMemory dat atdata sb1 = Some sb'"
    by (auto simp: allocAndFillScratchBuffer_def bind_eq_Some_conv)
  from scratchCreateAndMap_Some [OF 1] obtain c1 c2 c3 c4 pInfo pMem sz idx p1 q1 q4 where
    a: "cmds sb1 = cmds sb @ [c1, c2, c3, c4]"
    "call c1 = VkCreateBuffer (VulkanHandle device) p1 0 q1 VK_SUCCESS"
    "call c2 = VkAllocateMemory (VulkanHandle device) pInfo 0 pMem VK_SUCCESS"
    "readObservations c2 =
             [(pInfo, sz, VkMemoryAllocateInfo VK_STRUCTURE_TYPE_MEMORY_ALLOCATE_INFO 0
                            ((of_nat (length data) * 2 + 255) AND NOT 255) idx)]"
    "call c3 = VkBindBufferMemory (VulkanHandle device) buffer deviceMemory 0 VK_SUCCESS"
    "call c4 = VkMapMemory (VulkanHandle device) deviceMemory 0 (of_nat (length data)) 0 q4 VK_SUCCESS"
    by blast
  from scratchFlushAndUnmap_Some [OF 2] obtain c5 c6 p5 where
    b: "cmds sb' = cmds sb1 @ [c5, c6]"
    "call c5 = VkFlushMappedMemoryRanges (VulkanHandle device) 1 p5 VK_SUCCESS"
    "call c6 = VkUnmapMemory (VulkanHandle device) deviceMemory"
    by blast
  have "allocationSizes [c1, c2, c3, c4, c5, c6] = [(of_nat (length data) * 2 + 255) AND NOT 255]"
    using a(2-6) b(2,3) by (simp add: allocationSizes_def allocationSizeOf_def)
  moreover have "cmds sb' = cmds sb @ [c1, c2, c3, c4, c5, c6]" using a(1) b(1) by simp
  ultimately show ?thesis by (intro exI [of _ "[c1, c2, c3, c4, c5, c6]"]) simp
qed

lemma allocAndFillScratchBuffer_total:
  assumes al: "allocatorNeverFails X"
    and pd: "Contains (PhysicalDevices (sState sb)) (PhysicalDevice device)"
  shows "\<exists>r sb'. allocAndFillScratchBuffer X device data usages sb = Some (r, sb')"
proof -
  from scratchCreateAndMap_total [OF al pd] obtain buffer deviceMemory dat atdata sb1 where
    1: "scratchCreateAndMap X device data usages sb = Some ((buffer, deviceMemory, dat, atdata), sb1)"
    by (metis prod_cases4)
  from scratchFlushAndUnmap_total [OF al] obtain sb' where
    2: "scratchFlushAndUnmap X device data deviceMemory dat atdata sb1 = Some sb'" by blast
  show ?thesis by (simp add: allocAndFillScratchBuffer_def 1 2)
qed

lemma plainExtern_allocatorNeverFails: "allocatorNeverFails plainExtern"
  by (simp add: allocatorNeverFails_def plainExtern_def)

lemma deviceState_physical_device:
  "Contains (PhysicalDevices (sState (newBuilder X deviceState))) (PhysicalDevice theDevice)"
  by (simp add: Contains_def newBuilder_def deviceState_def theDevice_def emptyState_def)

text \<open>
  C4, as stated, at a payload of 100 bytes: the claim expects a backing size of 512; the
  size allocated is \<open>(2 * 100 + 255) AND NOT 255 = 256\<close>.
\<close>

theorem scratch_allocation_100_bytes_counterexample:
  "map_option (allocationSizes \<circ> cmds \<circ> snd)
     (allocAndFillScratchBuffer plainExtern theDevice (replicate 100 0) []
        (newBuilder plainExtern deviceState)) = Some [256] \<and> (256 :: VkDeviceSize) \<noteq> 512"
proof -
  let ?sb = "newBuilder plainExtern deviceState :: (unit, unit, unit) stateBuilder"
  from allocAndFillScratchBuffer_total [OF plainExtern_allocatorNeverFails deviceState_physical_device]
  obtain r sb' where
    r: "allocAndFillScratchBuffer plainExtern theDevice (replicate 100 0) [] ?sb = Some (r, sb')"
    by blast
  from allocAndFillScratchBuffer_Some [OF r] obtain new where
    "cmds sb' = cmds ?sb @ new" "allocationSizes new = [(of_nat (length (replicate 100 (0 :: 8 word))) * 2 + 255) AND NOT 255]"
    by blast
  then have "allocationSizes (cmds sb') = [256]" by (simp add: newBuilder_def)
  with r show ?thesis by simp
qed

text \<open>
  C4, amended.  \<open>allocAndFillScratchBuffer\<close> returns whenever the allocator does not fail
  and the physical device of the device is in the snapshot; when it returns, it has
  appended commands among which there is one \<open>VkAllocateMemory\<close>, of allocation size
  \<open>(2 * N + 255) AND NOT 255\<close> in 64-bit arithmetic for a payload of \<open>N\<close> bytes; as long as
  \<open>2 * N + 255\<close> fits 64 bits this is \<open>2 * N\<close> rounded up to a multiple of 256.  For
  \<open>N = 100\<close> the size is 256.
\<close>

theorem allocAndFillScratchBuffer_allocation_size:
  "(allocatorNeverFails X \<and> Contains (PhysicalDevices (sState sb)) (PhysicalDevice device) \<longrightarrow>
      (\<exists>r sb'. allocAndFillScratchBuffer X device data usages sb = Some (r, sb'))) \<and>
   (\<forall>r sb'. allocAndFillScratchBuffer X device data usages sb = Some (r, sb') \<longrightarrow>
      (\<exists>new. cmds sb' = cmds sb @ new \<and>
         allocationSizes new = [(of_nat (length data) * 2 + 255) AND NOT 255])) \<and>
   (2 * length data + 255 < 2 ^ 64 \<longrightarrow>
      unat ((of_nat (length data) * 2 + 255) AND NOT 255 :: VkDeviceSize)
        = (2 * length data + 255) div 256 * 256)"
proof (intro conjI impI allI)
  assume "allocatorNeverFails X \<and> Contains (PhysicalDevices (sState sb)) (PhysicalDevice device)"
  then show "\<exists>r sb'. allocAndFillScratchBuffer X device data usages sb = Some (r, sb')"
    using allocAndFillScratchBuffer_total by blast
next
  fix r sb'
  assume "allocAndFillScratchBuffer X device data usages sb = Some (r, sb')"
  from allocAndFillScratchBuffer_Some [OF this]
  show "\<exists>new. cmds sb' = cmds sb @ new \<and>
         allocationSizes new = [(of_nat (length data) * 2 + 255) AND NOT 255]" by blast
next
  assume "2 * length data + 255 < 2 ^ 64"
  then show "unat ((of_nat (length data) * 2 + 255) AND NOT 255 :: VkDeviceSize)
        = (2 * length data + 255) div 256 * 256"
    by (rule scratch_allocSize_rounds_up)
qed

theorem allocAndFillScratchBuffer_allocation_size_witness:
  "\<exists>r sb'. allocAndFillScratchBuffer plainExtern theDevice (replicate 100 0) []
               (newBuilder plainExtern deviceState) = Some (r, sb') \<and>
            allocationSizes (cmds sb') = [256] \<and>
            unat ((of_nat (length (replicate 100 (0 :: 8 word))) * 2 + 255) AND NOT 255 :: VkDeviceSize)
              = (2 * 100 + 255) div 256 * 256"
proof -
  let ?sb = "newBuilder plainExtern deviceState :: (unit, unit, unit) stateBuilder"
  note t = allocAndFillScratchBuffer_allocation_size
             [of plainExtern ?sb theDevice "replicate 100 0" "[]"]
  from t plainExtern_allocatorNeverFails deviceState_physical_device obtain r sb' where
    r: "allocAndFillScratchBuffer plainExtern theDevice (replicate 100 0) [] ?sb = Some (r, sb')"
    by blast
  with t obtain new where
    "cmds sb' = cmds ?sb @ new"
    "allocationSizes new = [(of_nat (length (replicate 100 (0 :: 8 word))) * 2 + 255) AND NOT 255]"
    by blast
  then have "allocationSizes (cmds sb') = [256]" by (simp add: newBuilder_def)
  moreover from t have "unat ((of_nat (length (replicate 100 (0 :: 8 word))) * 2 + 255) AND NOT 255 :: VkDeviceSize)
              = (2 * 100 + 255) div 256 * 256" by simp
  ultimately show ?thesis using r by blast
qed





























section \<open>Properties of the rebuild\<close>

lemma forEach_bind: "forEach (x # xs) f sb = Option.bind (f x sb) (forEach xs f)"
  by (cases "f x sb") simp_all

lemma forEach_append_bind:
  "forEach (xs @ ys) f sb = Option.bind (forEach xs f sb) (forEach ys f)"
  by (induction xs arbitrary: sb) (auto split: option.splits)

lemma forEach_map: "forEach (map g xs) f sb = forEach xs (\<lambda>x. f (g x)) sb"
  by (induction xs arbitrary: sb) (auto split: option.splits)

lemma forEach_single: "forEach [x] f sb = f x sb"
  by (cases "f x sb") simp_all

lemma forEach_withObject:
  "forEach ks (\<lambda>k. withObject m k (\<lambda>p. f (C p))) sb =
     Option.bind (lookupAll m ks) (\<lambda>vs. forEach (map C vs) f sb)"
proof (induction ks arbitrary: sb)
  case Nil
  show ?case by simp
next
  case (Cons k ks)
  show ?case
  proof (cases "map_of m k")
    case None
    then show ?thesis by (simp add: withObject_def)
  next
    case (Some v)
    show ?thesis
    proof (cases "f (C v) sb")
      case None
      with Some show ?thesis by (cases "lookupAll m ks") (simp_all add: withObject_def)
    next
      case (Some sb')
      with \<open>map_of m k = Some v\<close> Cons.IH [of sb'] show ?thesis
        by (cases "lookupAll m ks") (simp_all add: withObject_def)
    qed
  qed
qed

lemma bind_None_right [simp]: "Option.bind m (\<lambda>x. None) = None"
  by (cases m) simp_all

lemma RebuildState_plan:
  "RebuildState X ch ordC ordG st =
     Option.bind (rebuildPlan ordC ordG st)
       (\<lambda>plan. map_option (\<lambda>sb. (cmds sb, memoryIntervals sb))
                  (forEach plan (exec X ch) (newBuilder X st)))"
proof (cases "GetPipelinesInOrder ordC st True")
  case None
  then show ?thesis by (simp add: RebuildState_def rebuildPlan_def)
next
  case c: (Some cps)
  show ?thesis
  proof (cases "lookupAll (ComputePipelines st) cps")
    case None
    with c show ?thesis
      by (simp add: RebuildState_def rebuildPlan_def forEach_withObject)
  next
    case co: (Some cpos)
    show ?thesis
    proof (cases "GetPipelinesInOrder ordG st False")
      case None
      with c co show ?thesis by (simp add: RebuildState_def rebuildPlan_def)
    next
      case g: (Some gps)
      show ?thesis
      proof (cases "lookupAll (GraphicsPipelines st) gps")
        case None
        with c co g show ?thesis
          by (simp add: RebuildState_def rebuildPlan_def forEach_withObject)
      next
        case go: (Some gpos)
        have m: "\<And>m f. map_option f m = Option.bind m (\<lambda>x. Some (f x))"
          by (simp add: map_conv_bind_option comp_def)
        show ?thesis
          unfolding RebuildState_def rebuildPlan_def stagesBeforePipelines_def stagesAfterPipelines_def
          by (simp add: c co g go forEach_withObject forEach_append_bind forEach_map forEach_bind m
                split_def del: forEach.simps(2))
      qed
    qed
  qed
qed

lemma stagesBeforePipelines_sorted:
  "sorted (map stage (stagesBeforePipelines st)) \<and> (\<forall>r \<in> set (stagesBeforePipelines st). stage r \<le> 18)"
  unfolding stagesBeforePipelines_def
  by (auto simp: sorted_append comp_def sorted_map split_def)

lemma stagesAfterPipelines_sorted:
  "sorted (map stage (stagesAfterPipelines st)) \<and> (\<forall>r \<in> set (stagesAfterPipelines st). 21 \<le> stage r)"
  unfolding stagesAfterPipelines_def
  by (auto simp: sorted_append comp_def sorted_map)

lemma rebuildPlan_sorted:
  assumes "rebuildPlan ordC ordG st = Some plan"
  shows "sorted (map stage plan)"
proof -
  from assms obtain cpos gpos where
    p: "plan = stagesBeforePipelines st @ map CreateComputePipeline cpos @
               map CreateGraphicsPipeline gpos @ stagesAfterPipelines st"
    by (auto simp: rebuildPlan_def bind_eq_Some_conv)
  from stagesBeforePipelines_sorted [of st] stagesAfterPipelines_sorted [of st]
  show ?thesis unfolding p
    by (fastforce simp: sorted_append comp_def sorted_map)
qed

text \<open>Every routine only appends to the command sequence when the routines that are not
  modelled do.\<close>

lemma createDeviceMemory_appends:
  assumes "createDeviceMemory X mem allow sb = Some sb'"
  shows "\<exists>new. cmds sb' = cmds sb @ new"
proof (cases "\<not> allow \<and> DedicatedAllocationNV mem \<noteq> None")
  case True
  with assms show ?thesis by (simp add: createDeviceMemory_def)
next
  case False
  show ?thesis
  proof (cases "MappedLocation mem = 0")
    case m: True
    show ?thesis
    proof (cases "DedicatedAllocationNV mem")
      case None
      with assms m False show ?thesis
        by (auto simp: createDeviceMemory_def bind_eq_Some_conv write'_fields
            dest!: MustAllocReadData_Some MustAllocWriteData_Some)
    next
      case (Some ded)
      with assms m False show ?thesis
        by (auto simp: createDeviceMemory_def bind_eq_Some_conv write'_fields
            dest!: MustAllocReadData_Some MustAllocWriteData_Some)
    qed
  next
    case m: False
    show ?thesis
    proof (cases "DedicatedAllocationNV mem")
      case None
      with assms m False show ?thesis
        by (auto simp: createDeviceMemory_def bind_eq_Some_conv write'_fields
            dest!: MustAllocReadData_Some MustAllocWriteData_Some)
    next
      case (Some ded)
      with assms m False show ?thesis
        by (auto simp: createDeviceMemory_def bind_eq_Some_conv write'_fields
            dest!: MustAllocReadData_Some MustAllocWriteData_Some)
    qed
  qed
qed

lemma createQueue_appends:
  assumes "createQueue X q sb = Some sb'"
  shows "\<exists>new. cmds sb' = cmds sb @ new"
  using assms
  by (auto simp: createQueue_def bind_eq_Some_conv write'_fields dest!: MustAllocWriteData_Some)

lemma exec_appends:
  assumes "appendOnly X" and "exec X ch r sb = Some sb'"
  shows "\<exists>new. cmds sb' = cmds sb @ new"
proof (cases r)
  case (CreateQueue q)
  with assms(2) show ?thesis by (auto simp: exec_def dest: createQueue_appends)
next
  case (CreateDeviceMemory mem allow)
  with assms(2) show ?thesis by (auto simp: exec_def dest: createDeviceMemory_appends)
next
  case (CreateImage img)
  with assms show ?thesis
    by (auto simp: exec_def createImage_def appendOnly_def split: if_splits)
qed (use assms in \<open>auto simp: exec_def appendOnly_def\<close>)

lemma forEach_exec_appends:
  assumes "appendOnly X" and "forEach rs (exec X ch) sb = Some sb'"
  shows "\<exists>new. cmds sb' = cmds sb @ new"
  using assms(2)
proof (induction rs arbitrary: sb)
  case Nil
  then show ?case by simp
next
  case (Cons r rs)
  from Cons.prems obtain sb1 where 1: "exec X ch r sb = Some sb1" and 2: "forEach rs (exec X ch) sb1 = Some sb'"
    by (auto split: option.splits)
  from exec_appends [OF assms(1) 1] Cons.IH [OF 2] show ?case by auto
qed

lemma resolveLoop_Some_once:
  assumes d: "distinct (map fst tbl)"
    and r: "resolveLoop ord n st = Some ps"
  shows "resolverInv tbl st \<longrightarrow> distinct ps \<and> set ps = fst ` set tbl"
proof (rule resolveLoop.raw_induct
         [where P = "\<lambda>_ _ st ps. resolverInv tbl st \<longrightarrow> distinct ps \<and> set ps = fst ` set tbl", OF _ r])
  fix loop :: "rangeOrder \<Rightarrow> nat \<Rightarrow> resolver \<Rightarrow> VkPipeline list option"
    and ord n st ps
  assume IH: "\<And>ord n st ps. loop ord n st = Some ps \<Longrightarrow>
                 resolverInv tbl st \<longrightarrow> distinct ps \<and> set ps = fst ` set tbl"
    and eq: "(if unhandledPipelines st = [] then Some (pipelines st)
      else if numHandled (resolvePass (rangeMap ord n (unhandledPipelines st)) st) = 0
      then Some (pipelines (resolvePass (rangeMap ord n (unhandledPipelines st)) st) @
                 map fst (rangeMap ord (Suc n)
                   (unhandledPipelines (resolvePass (rangeMap ord n (unhandledPipelines st)) st))))
      else loop ord (Suc n) (resolvePass (rangeMap ord n (unhandledPipelines st)) st)) = Some ps"
  show "resolverInv tbl st \<longrightarrow> distinct ps \<and> set ps = fst ` set tbl"
  proof
    assume inv: "resolverInv tbl st"
    let ?st' = "resolvePass (rangeMap ord n (unhandledPipelines st)) st"
    show "distinct ps \<and> set ps = fst ` set tbl"
    proof (cases "unhandledPipelines st = []")
      case True
      with eq have "ps = pipelines st" by simp
      with inv True show ?thesis unfolding resolverInv_def by simp
    next
      case False
      from inv have du: "distinct (map fst (unhandledPipelines st))"
        unfolding resolverInv_def by simp
      have "set (rangeMap ord n (unhandledPipelines st)) \<subseteq> set (unhandledPipelines st)" by simp
      from resolvePass_inv [OF d inv this rangeMap_distinct [OF du]]
      have inv': "resolverInv tbl ?st'" by blast
      show ?thesis
      proof (cases "numHandled ?st' = 0")
        case True
        with eq False have ps: "ps = pipelines ?st' @ map fst (rangeMap ord (Suc n) (unhandledPipelines ?st'))"
          by simp
        from inv' have "distinct (pipelines ?st')"
          "distinct (map fst (unhandledPipelines ?st'))"
          "set (pipelines ?st') \<inter> fst ` set (unhandledPipelines ?st') = {}"
          "fst ` set tbl = set (pipelines ?st') \<union> fst ` set (unhandledPipelines ?st')"
          unfolding resolverInv_def by simp_all
        then show ?thesis unfolding ps
          using rangeMap_distinct [of "unhandledPipelines ?st'" ord "Suc n"] by auto
      next
        case n0: False
        with eq False have "loop ord (Suc n) ?st' = Some ps" by simp
        from IH [OF this] inv' show ?thesis by blast
      qed
    qed
  qed
qed

lemma GetPipelinesInOrder_once:
  assumes "GetPipelinesInOrder ord st c = Some ps"
  shows "distinct ps \<and> set ps = fst ` set (pipelineTable st c)"
proof -
  let ?tbl = "pipelineTable st c"
  let ?st = "\<lparr>pipelines = [], unhandledPipelines = ?tbl, handledPipelines = {}, numHandled = 0\<rparr>"
  have "resolverInv ?tbl ?st"
    unfolding resolverInv_def honors_def by (simp add: pipelineTable_distinct)
  moreover from assms have "resolveLoop ord 0 ?st = Some ps" by (simp add: GetPipelinesInOrder_def)
  ultimately show ?thesis
    using resolveLoop_Some_once [OF pipelineTable_distinct] by blast
qed








lemma RebuildState_Some:
  assumes "RebuildState X ch ordC ordG st = Some (out, ranges)"
  shows "\<exists>plan sb. rebuildPlan ordC ordG st = Some plan \<and>
           forEach plan (exec X ch) (newBuilder X st) = Some sb \<and>
           out = cmds sb \<and> ranges = memoryIntervals sb"
  using assms unfolding RebuildState_plan by (auto simp: bind_eq_Some_conv)

text \<open>
  When \<open>RebuildState\<close> returns, its output is that of calling the routines of the
  plan one after the other on the fresh builder, and the plan lists the calls stage by
  stage in the order instances, physical devices, surfaces, devices, queues, swapchains,
  non-dedicated memory, buffers, images, samplers, fences, semaphores, events, command
  pools, pipeline caches, descriptor-set layouts, pipeline layouts, render passes, shader
  modules, compute pipelines, graphics pipelines, image views, buffer views, descriptor
  pools, framebuffers, descriptor sets, query pools, secondary and primary command
  buffers.  When the routines only append commands, the commands of any initial part of
  the plan are an initial part of the output: a stage has emitted all its commands
  before the next one starts.  In the memory stage a dedicated allocation is passed over.
\<close>

lemma RebuildState_stage_order:
  assumes "RebuildState X ch ordC ordG st = Some (out, ranges)"
  shows "\<exists>plan sb. rebuildPlan ordC ordG st = Some plan \<and> sorted (map stage plan) \<and>
           forEach plan (exec X ch) (newBuilder X st) = Some sb \<and>
           out = cmds sb \<and> ranges = memoryIntervals sb \<and>
           (appendOnly X \<longrightarrow>
              (\<forall>earlier later. plan = earlier @ later \<longrightarrow>
                 (\<exists>sb1 rest. forEach earlier (exec X ch) (newBuilder X st) = Some sb1 \<and>
                              out = cmds sb1 @ rest))) \<and>
           (\<forall>mem sb0. DedicatedAllocationNV mem \<noteq> None \<longrightarrow>
              exec X ch (CreateDeviceMemory mem False) sb0 = Some sb0)"
proof -
  have ded: "\<forall>mem sb0. DedicatedAllocationNV mem \<noteq> None \<longrightarrow>
              exec X ch (CreateDeviceMemory mem False) sb0 = Some sb0"
    by (simp add: exec_def createDeviceMemory_def)
  from RebuildState_Some [OF assms] obtain plan sb where
    p: "rebuildPlan ordC ordG st = Some plan"
    and f: "forEach plan (exec X ch) (newBuilder X st) = Some sb"
    and o: "out = cmds sb" "ranges = memoryIntervals sb" by blast
  have "appendOnly X \<longrightarrow>
              (\<forall>earlier later. plan = earlier @ later \<longrightarrow>
                 (\<exists>sb1 rest. forEach earlier (exec X ch) (newBuilder X st) = Some sb1 \<and>
                              out = cmds sb1 @ rest))"
  proof (intro impI allI)
    fix earlier later
    assume ao: "appendOnly X" and sp: "plan = earlier @ later"
    from f sp obtain sb1 where 1: "forEach earlier (exec X ch) (newBuilder X st) = Some sb1"
      and 2: "forEach later (exec X ch) sb1 = Some sb"
      by (auto simp: forEach_append_bind bind_eq_Some_conv)
    from forEach_exec_appends [OF ao 2] o(1) 1
    show "\<exists>sb1 rest. forEach earlier (exec X ch) (newBuilder X st) = Some sb1 \<and> out = cmds sb1 @ rest"
      by auto
  qed
  with p f o rebuildPlan_sorted [OF p] ded show ?thesis by blast
qed

lemma smallSnapshot_compute:
  "GetPipelinesInOrder highFirst smallSnapshot True = Some [8, 9]"
  by (simp add: GetPipelinesInOrder_def pipelineTable_def smallSnapshot_def emptyState_def
      pipelineObj_def Values_def Keys_def List.map_filter_simps resolveLoop.simps rangeMap_def
      highFirst_def Let_def)

lemma smallSnapshot_graphics:
  "GetPipelinesInOrder lowFirst smallSnapshot False = Some []"
  by (simp add: GetPipelinesInOrder_def pipelineTable_def smallSnapshot_def emptyState_def
      Values_def Keys_def List.map_filter_simps resolveLoop.simps)

lemma smallSnapshot_plan:
  "rebuildPlan highFirst lowFirst smallSnapshot = Some
     [CreateInstance 1 1, CreatePhysicalDevices [], CreateBuffer 4, NewImagePrimer,
      CreateImage \<lparr>VulkanHandle = 5, IsSwapchainImage = True, ImageAttributes = 5\<rparr>,
      CreateImage \<lparr>VulkanHandle = 6, IsSwapchainImage = False, ImageAttributes = 6\<rparr>,
      FreeImagePrimer, CreateShaderModule 7,
      CreateComputePipeline \<lparr>VulkanHandle = 8, BasePipeline = 0\<rparr>,
      CreateComputePipeline \<lparr>VulkanHandle = 9, BasePipeline = 8\<rparr>,
      CreateCommandBuffer 3 VK_COMMAND_BUFFER_LEVEL_SECONDARY,
      CreateCommandBuffer 3 VK_COMMAND_BUFFER_LEVEL_PRIMARY]"
  by (simp add: rebuildPlan_def smallSnapshot_compute smallSnapshot_graphics)
     (simp add: smallSnapshot_def emptyState_def stagesBeforePipelines_def stagesAfterPipelines_def
        pipelineObj_def Values_def Entries_def Keys_def List.map_filter_simps)

lemma tracingExtern_appendOnly: "appendOnly tracingExtern"
  by (auto simp: appendOnly_def tracingExtern_def)

lemma smallSnapshot_run:
  "RebuildState tracingExtern () highFirst lowFirst smallSnapshot = Some
     ([newCmd (VkCall ''routine'' [0, 1]), newCmd (VkCall ''routine'' [1]),
       newCmd (VkCall ''routine'' [7, 4]), newCmd (VkCall ''routine'' [8]),
       newCmd (VkCall ''routine'' [8, 6]), newCmd (VkCall ''routine'' [8]),
       newCmd (VkCall ''routine'' [18, 7]), newCmd (VkCall ''routine'' [19, 8]),
       newCmd (VkCall ''routine'' [19, 9]), newCmd (VkCall ''routine'' [27, 3]),
       newCmd (VkCall ''routine'' [28, 3])], [])"
  unfolding RebuildState_plan smallSnapshot_plan
  by (simp add: exec_def createImage_def tracingExtern_def newBuilder_def Keys_def)

lemma RebuildState_stage_order_example:
  "\<exists>out ranges plan.
     RebuildState tracingExtern () highFirst lowFirst smallSnapshot = Some (out, ranges) \<and>
     rebuildPlan highFirst lowFirst smallSnapshot = Some plan \<and>
     sorted (map stage plan) \<and>
     map stage plan = [0, 1, 7, 8, 8, 8, 8, 18, 19, 19, 27, 28] \<and>
     map call out = [VkCall ''routine'' [0, 1], VkCall ''routine'' [1], VkCall ''routine'' [7, 4],
                     VkCall ''routine'' [8], VkCall ''routine'' [8, 6], VkCall ''routine'' [8],
                     VkCall ''routine'' [18, 7], VkCall ''routine'' [19, 8], VkCall ''routine'' [19, 9],
                     VkCall ''routine'' [27, 3], VkCall ''routine'' [28, 3]] \<and>
     (\<exists>sb1 rest. forEach (take 7 plan) (exec tracingExtern ()) (newBuilder tracingExtern smallSnapshot) = Some sb1 \<and>
                  out = cmds sb1 @ rest)"
proof -
  let ?out = "[newCmd (VkCall ''routine'' [0, 1]), newCmd (VkCall ''routine'' [1]),
       newCmd (VkCall ''routine'' [7, 4]), newCmd (VkCall ''routine'' [8]),
       newCmd (VkCall ''routine'' [8, 6]), newCmd (VkCall ''routine'' [8]),
       newCmd (VkCall ''routine'' [18, 7]), newCmd (VkCall ''routine'' [19, 8 :: u64]),
       newCmd (VkCall ''routine'' [19, 9]), newCmd (VkCall ''routine'' [27, 3]),
       newCmd (VkCall ''routine'' [28, 3])]"
  from RebuildState_stage_order [OF smallSnapshot_run] obtain plan sb where
    p: "rebuildPlan highFirst lowFirst smallSnapshot = Some plan" "sorted (map stage plan)"
    and ao: "appendOnly tracingExtern \<longrightarrow>
              (\<forall>earlier later. plan = earlier @ later \<longrightarrow>
                 (\<exists>sb1 rest. forEach earlier (exec tracingExtern ()) (newBuilder tracingExtern smallSnapshot) = Some sb1 \<and>
                              ?out = cmds sb1 @ rest))"
    by blast
  have "plan = take 7 plan @ drop 7 plan" by simp
  with ao tracingExtern_appendOnly
  have pre: "\<exists>sb1 rest. forEach (take 7 plan) (exec tracingExtern ()) (newBuilder tracingExtern smallSnapshot) = Some sb1 \<and>
                  ?out = cmds sb1 @ rest" by blast
  from p(1) have "map stage plan = [0, 1, 7, 8, 8, 8, 8, 18, 19, 19, 27, 28]"
    unfolding smallSnapshot_plan by auto
  with p pre smallSnapshot_run show ?thesis by (auto simp: newCmd_def)
qed

lemma fold_update_keys:
  "fst ` set (fold (\<lambda>pp m. AList.update (VulkanHandle pp) (BasePipeline pp) m) xs m)
     = VulkanHandle ` set xs \<union> fst ` set m"
  by (induction xs arbitrary: m) (auto simp: dom_update)

lemma pipelineTable_keys:
  "fst ` set (pipelineTable st c)
     = VulkanHandle ` set (if c then Values (ComputePipelines st) else Values (GraphicsPipelines st))"
  unfolding pipelineTable_def by (simp add: fold_update_keys)

lemma Values_entries:
  assumes "v \<in> set (Values m)"
  shows "\<exists>k. (k, v) \<in> set m"
proof -
  from assms obtain k where "map_of m k = Some v"
    by (auto simp: Values_def List.map_filter_def)
  then show ?thesis by (blast dest: map_of_SomeD)
qed

lemma keyedByHandle_lookup:
  assumes "keyedByHandle m" and "v \<in> set (Values m)"
  shows "map_of m (VulkanHandle v) \<noteq> None"
proof -
  from Values_entries [OF assms(2)] obtain k where k: "(k, v) \<in> set m" by blast
  with assms(1) have "VulkanHandle v = k" unfolding keyedByHandle_def by blast
  with k show ?thesis by (metis fst_conv image_eqI map_of_eq_None_iff)
qed

lemma lookupAll_total:
  "(\<forall>k \<in> set ks. map_of m k \<noteq> None) \<Longrightarrow> \<exists>vs. lookupAll m ks = Some vs"
  by (induction ks) auto

lemma forEach_total:
  assumes "\<And>x sb. \<exists>sb'. f x sb = Some sb'"
  shows "\<exists>sb'. forEach xs f sb = Some sb'"
proof (induction xs arbitrary: sb)
  case Nil
  show ?case by simp
next
  case (Cons x xs)
  from assms obtain sb1 where "f x sb = Some sb1" by blast
  with Cons.IH [of sb1] show ?case by simp
qed

lemma createQueue_total:
  assumes "allocatorNeverFails X"
  shows "\<exists>sb'. createQueue X q sb = Some sb'"
proof -
  from MustAllocWriteData_total [OF assms] obtain a sb1 where
    "MustAllocWriteData X (Handle (VulkanHandle q)) sb = Some (a, sb1)" by blast
  then show ?thesis by (simp add: createQueue_def)
qed

lemma createDeviceMemory_total:
  assumes al: "allocatorNeverFails X"
  shows "\<exists>sb'. createDeviceMemory X mem allow sb = Some sb'"
proof (cases "\<not> allow \<and> DedicatedAllocationNV mem \<noteq> None")
  case True
  then show ?thesis by (simp add: createDeviceMemory_def)
next
  case False
  have "\<exists>p sb1. (case DedicatedAllocationNV mem of
              None \<Rightarrow> Some (0, sb)
            | Some ded \<Rightarrow> do {
                (info, sb) \<leftarrow> MustAllocReadData X
                   (VkDedicatedAllocationMemoryAllocateInfoNV
                      VK_STRUCTURE_TYPE_DEDICATED_ALLOCATION_MEMORY_ALLOCATE_INFO_NV 0 (fst ded) (snd ded)) sb;
                Some (Ptr info, sb)
              }) = Some (p, sb1)"
  proof (cases "DedicatedAllocationNV mem")
    case None
    then show ?thesis by simp
  next
    case (Some ded)
    from MustAllocReadData_total [OF al] obtain a sb1 where
      "MustAllocReadData X (VkDedicatedAllocationMemoryAllocateInfoNV
                      VK_STRUCTURE_TYPE_DEDICATED_ALLOCATION_MEMORY_ALLOCATE_INFO_NV 0 (fst ded) (snd ded)) sb
         = Some (a, sb1)" by blast
    with Some show ?thesis by simp
  qed
  then obtain p sb1 where 1: "(case DedicatedAllocationNV mem of
              None \<Rightarrow> Some (0, sb)
            | Some ded \<Rightarrow> do {
                (info, sb) \<leftarrow> MustAllocReadData X
                   (VkDedicatedAllocationMemoryAllocateInfoNV
                      VK_STRUCTURE_TYPE_DEDICATED_ALLOCATION_MEMORY_ALLOCATE_INFO_NV 0 (fst ded) (snd ded)) sb;
                Some (Ptr info, sb)
              }) = Some (p, sb1)" by blast
  from MustAllocReadData_total [OF al] obtain a2 sb2 where
    2: "MustAllocReadData X (VkMemoryAllocateInfo VK_STRUCTURE_TYPE_MEMORY_ALLOCATE_INFO p
              (AllocationSize mem) (MemoryTypeIndex mem)) sb1 = Some (a2, sb2)" by blast
  from MustAllocWriteData_total [OF al] obtain a3 sb3 where
    3: "MustAllocWriteData X (Handle (VulkanHandle mem)) sb2 = Some (a3, sb3)" by blast
  let ?sb4 = "write' X (newCmd (VkAllocateMemory (Device mem) (Ptr a2) 0 (Ptr a3) VK_SUCCESS)) sb3"
  from MustAllocWriteData_total [OF al] obtain a5 sb5 where
    5: "MustAllocWriteData X (Pointer (MappedLocation mem)) ?sb4 = Some (a5, sb5)" by blast
  from False show ?thesis
    unfolding createDeviceMemory_def by (simp add: 1 2 3 5)
qed

lemma exec_total:
  assumes "allocatorNeverFails X" and "routinesReturn X"
  shows "\<exists>sb'. exec X ch r sb = Some sb'"
proof (cases r)
  case (CreateQueue q)
  with createQueue_total [OF assms(1)] show ?thesis by (simp add: exec_def)
next
  case (CreateDeviceMemory mem allow)
  with createDeviceMemory_total [OF assms(1)] show ?thesis by (simp add: exec_def)
next
  case (CreateImage img)
  with assms(2) show ?thesis by (auto simp: exec_def createImage_def routinesReturn_def)
qed (use assms(2) in \<open>auto simp: exec_def routinesReturn_def\<close>)

lemma rebuildPlan_total:
  assumes c: "GetPipelinesInOrder ordC st True = Some cps"
    and g: "GetPipelinesInOrder ordG st False = Some gps"
    and kc: "keyedByHandle (ComputePipelines st)" and kg: "keyedByHandle (GraphicsPipelines st)"
  shows "\<exists>plan. rebuildPlan ordC ordG st = Some plan"
proof -
  from GetPipelinesInOrder_once [OF c] have "set cps = VulkanHandle ` set (Values (ComputePipelines st))"
    by (simp add: pipelineTable_keys)
  with keyedByHandle_lookup [OF kc] have "\<forall>k \<in> set cps. map_of (ComputePipelines st) k \<noteq> None"
    by auto
  from lookupAll_total [OF this] obtain cpos where 1: "lookupAll (ComputePipelines st) cps = Some cpos"
    by blast
  from GetPipelinesInOrder_once [OF g] have "set gps = VulkanHandle ` set (Values (GraphicsPipelines st))"
    by (simp add: pipelineTable_keys)
  with keyedByHandle_lookup [OF kg] have "\<forall>k \<in> set gps. map_of (GraphicsPipelines st) k \<noteq> None"
    by auto
  from lookupAll_total [OF this] obtain gpos where 2: "lookupAll (GraphicsPipelines st) gps = Some gpos"
    by blast
  show ?thesis by (simp add: rebuildPlan_def c g 1 2)
qed

lemma GetPipelinesInOrder_returns:
  assumes "acyclic (baseRel (pipelineTable s c))" and "basesContained (pipelineTable s c)"
  shows "\<exists>ps. GetPipelinesInOrder ord s c = Some ps"
proof -
  let ?tbl = "pipelineTable s c"
  let ?st = "\<lparr>pipelines = [], unhandledPipelines = ?tbl, handledPipelines = {}, numHandled = 0\<rparr>"
  have "resolverInv ?tbl ?st"
    unfolding resolverInv_def honors_def by (simp add: pipelineTable_distinct)
  from resolveLoop_total [OF pipelineTable_distinct assms this, of ord 0]
  show ?thesis unfolding GetPipelinesInOrder_def by blast
qed

lemma RebuildState_returns:
  assumes "acyclic (baseRel (pipelineTable st True))" and "basesContained (pipelineTable st True)"
    and "acyclic (baseRel (pipelineTable st False))" and "basesContained (pipelineTable st False)"
    and kc: "keyedByHandle (ComputePipelines st)" and kg: "keyedByHandle (GraphicsPipelines st)"
    and al: "allocatorNeverFails X" and rr: "routinesReturn X"
  shows "\<exists>out. RebuildState X ch ordC ordG st = Some out"
proof -
  from GetPipelinesInOrder_returns [OF assms(1,2)] obtain cps where
    c: "GetPipelinesInOrder ordC st True = Some cps" by blast
  from GetPipelinesInOrder_returns [OF assms(3,4)] obtain gps where
    g: "GetPipelinesInOrder ordG st False = Some gps" by blast
  from rebuildPlan_total [OF c g kc kg] obtain plan where p: "rebuildPlan ordC ordG st = Some plan"
    by blast
  from forEach_total [of "exec X ch", OF exec_total [OF al rr]] obtain sb where
    "forEach plan (exec X ch) (newBuilder X st) = Some sb" by blast
  with p show ?thesis unfolding RebuildState_plan by simp
qed

text \<open>
  A run returns when the base references of both pipeline tables are acyclic and stay
  inside the table, every pipeline is filed under its own handle, the allocator does not
  fail and no routine panics; its calls are then in the stage order above.
\<close>

lemma RebuildState_returns_in_stage_order:
  assumes "acyclic (baseRel (pipelineTable st True))" and "basesContained (pipelineTable st True)"
    and "acyclic (baseRel (pipelineTable st False))" and "basesContained (pipelineTable st False)"
    and "keyedByHandle (ComputePipelines st)" and "keyedByHandle (GraphicsPipelines st)"
    and "allocatorNeverFails X" and "routinesReturn X"
  shows "\<exists>out ranges plan sb.
           RebuildState X ch ordC ordG st = Some (out, ranges) \<and>
           rebuildPlan ordC ordG st = Some plan \<and> sorted (map stage plan) \<and>
           forEach plan (exec X ch) (newBuilder X st) = Some sb \<and>
           out = cmds sb \<and> ranges = memoryIntervals sb"
proof -
  from RebuildState_returns [OF assms] obtain out ranges where
    r: "RebuildState X ch ordC ordG st = Some (out, ranges)" by (metis surj_pair)
  from RebuildState_stage_order [OF r] r show ?thesis by blast
qed

text \<open>
  C6.  The claim says that \<open>RebuildState\<close> emits the commands of all stages, in the
  order given, for every snapshot.  On the snapshot whose compute pipelines are 1 (no
  base) and 2 (base 7, a pipeline that is not in the table), and on the one with the same
  two as graphics pipelines, \<open>GetPipelinesInOrder\<close> is called after the shader module
  stage and never returns (the counter \<open>numHandled\<close> is not reset, as under C2), so
  \<open>RebuildState\<close> never returns and no stage from the pipelines on is reached, whatever
  the collaborators and the iteration orders are.  The same holds for the sample snapshot
  with these two compute pipelines in place of its own: its command buffer is never
  created.
\<close>

theorem RebuildState_hangs_when_resolver_stalls:
  "RebuildState X ch ordC ordG (pipelineState [pipelineObj 1 0, pipelineObj 2 7] []) = None \<and>
   RebuildState X ch ordC ordG (pipelineState [] [pipelineObj 1 0, pipelineObj 2 7]) = None \<and>
   RebuildState Y ch' ordC ordG (smallSnapshot\<lparr>ComputePipelines := [pipelineObj 1 0, pipelineObj 2 7]\<rparr>)
     = None"
proof (intro conjI)
  let ?s = "smallSnapshot\<lparr>ComputePipelines := [pipelineObj 1 0, pipelineObj 2 7]\<rparr>"
  have t: "pipelineTable ?s True = [(1, 0), (2, 7)]"
    by (simp add: pipelineTable_def pipelineObj_def Values_def Keys_def List.map_filter_simps)
  have "GetPipelinesInOrder ordC ?s True = None"
    by (rule GetPipelinesInOrder_diverges [where a = 1 and e = "(2, 7)" and B = "{2}"])
       (simp_all add: t blocked_def)
  then show "RebuildState Y ch' ordC ordG ?s = None"
    unfolding RebuildState_plan by (simp add: rebuildPlan_def)
next
  let ?s = "pipelineState [pipelineObj 1 0, pipelineObj 2 7] []"
  have t: "pipelineTable ?s True = [(1, 0), (2, 7)]"
    by (simp add: pipelineTable_def pipelineState_def pipelineObj_def emptyState_def Values_def Keys_def
        List.map_filter_simps)
  have "GetPipelinesInOrder ordC ?s True = None"
    by (rule GetPipelinesInOrder_diverges [where a = 1 and e = "(2, 7)" and B = "{2}"])
       (simp_all add: t blocked_def)
  then show "RebuildState X ch ordC ordG ?s = None"
    unfolding RebuildState_plan by (simp add: rebuildPlan_def)
next
  let ?s = "pipelineState [] [pipelineObj 1 0, pipelineObj 2 7]"
  have t: "pipelineTable ?s False = [(1, 0), (2, 7)]"
    by (simp add: pipelineTable_def pipelineState_def pipelineObj_def emptyState_def Values_def Keys_def
        List.map_filter_simps)
  have "GetPipelinesInOrder ordG ?s False = None"
    by (rule GetPipelinesInOrder_diverges [where a = 1 and e = "(2, 7)" and B = "{2}"])
       (simp_all add: t blocked_def)
  then show "RebuildState X ch ordC ordG ?s = None"
    unfolding RebuildState_plan by (simp add: rebuildPlan_def)
qed









text \<open>
  \<open>getQueueFor\<close> returns the first fitting queue in the iteration order of the queue
  map: with two queues of one family on the device, it is queue 6 when the map is ranged
  over by increasing handle and queue 7 when it is ranged over by decreasing handle.  So
  the commands that a routine emits are not fixed by the routine call.
\<close>

lemma twoQueues_entries:
  "Entries (Queues (sState (newBuilder X twoQueues))) = [queueAt 6 0, queueAt 7 1]"
  by (simp add: newBuilder_def twoQueues_def deviceState_def emptyState_def Entries_def Keys_def
      queueAt_def List.map_filter_simps)

lemma getQueueFor_follows_map_order:
  "getQueueFor lowFirst 0 None 2 None (newBuilder X twoQueues) = Some (snd (queueAt 6 0)) \<and>
   getQueueFor highFirst 0 None 2 None (newBuilder X twoQueues) = Some (snd (queueAt 7 1)) \<and>
   getQueueFor lowFirst 0 None 2 (Some [(0, 0)]) (newBuilder X twoQueues) = Some (snd (queueAt 6 0)) \<and>
   getQueueFor highFirst 0 None 2 (Some [(0, 0)]) (newBuilder X twoQueues) = Some (snd (queueAt 7 1)) \<and>
   snd (queueAt 6 0) \<noteq> snd (queueAt 7 1)"
proof -
  have e: "Entries [(0 :: u32, 0 :: u32)] = [(0, 0)]"
    by (simp add: Entries_def Keys_def List.map_filter_simps)
  show ?thesis
    by (simp add: getQueueFor_def twoQueues_entries e rangeMap_def lowFirst_def highFirst_def
        queueAt_def)
qed

text \<open>
  With the sample routine bodies that pick their queue with \<open>getQueueFor\<close>, two runs on
  the snapshot with two queues and a query pool make the same calls and emit different
  commands: the submission goes to queue 6 in one run and to queue 7 in the other.
\<close>

lemma queryPoolState_no_pipelines:
  "GetPipelinesInOrder ord queryPoolState c = Some []"
  by (simp add: GetPipelinesInOrder_def pipelineTable_def queryPoolState_def twoQueues_def
      deviceState_def emptyState_def Values_def Keys_def List.map_filter_simps resolveLoop.simps)

lemma queryPoolState_plan:
  "rebuildPlan ordC ordG queryPoolState = Some
     [CreatePhysicalDevices [(1, \<lparr>VulkanHandle = 1,
          MemoryProperties = \<lparr>MemoryTypeCount = 1, MemoryTypes = [2]\<rparr>\<rparr>)],
      CreateDevice \<lparr>VulkanHandle = 2, PhysicalDevice = 1\<rparr>,
      CreateQueue (snd (queueAt 6 0)), CreateQueue (snd (queueAt 7 1)),
      NewImagePrimer, FreeImagePrimer, CreateQueryPool ()]"
  by (simp add: rebuildPlan_def queryPoolState_no_pipelines)
     (simp add: queryPoolState_def twoQueues_def deviceState_def emptyState_def
        stagesBeforePipelines_def stagesAfterPipelines_def queueAt_def
        Values_def Entries_def Keys_def List.map_filter_simps)

lemma queryPoolState_entries:
  "Entries (Queues queryPoolState) = [queueAt 6 0, queueAt 7 1]"
  by (simp add: queryPoolState_def twoQueues_def deviceState_def emptyState_def Entries_def Keys_def
      queueAt_def List.map_filter_simps)

lemma same_calls_different_commands:
  "map_option (map call \<circ> fst) (RebuildState queuePickingExtern lowFirst ordC ordG queryPoolState)
     = Some [VkGetDeviceQueue 2 0 0 4096, VkGetDeviceQueue 2 0 1 4096, VkCall ''vkQueueSubmit'' [6]] \<and>
   map_option (map call \<circ> fst) (RebuildState queuePickingExtern highFirst ordC ordG queryPoolState)
     = Some [VkGetDeviceQueue 2 0 0 4096, VkGetDeviceQueue 2 0 1 4096, VkCall ''vkQueueSubmit'' [7]]"
  unfolding RebuildState_plan queryPoolState_plan
  by (simp add: exec_def createQueue_def queuePickingExtern_def newBuilder_def
      MustAllocWriteData_def AllocDataOrPanic_def write'_def observed_eq Free_def Let_def Ptr_def
      getQueueFor_def queryPoolState_entries rangeMap_def lowFirst_def highFirst_def
      queueAt_def newCmd_def AddWrite_def Data_def)



end
